theory Spec2Isabelle
  imports Main "HOL-Library.Multiset"
begin

section \<open>The asset fetcher \<^verbatim>\<open>tools/fetch-assets.mjs\<close>\<close>

text \<open>
  The tool reads the country list of the REST Countries service, reduces it to
  \<^verbatim>\<open>{code, name}\<close> records, writes them to \<^verbatim>\<open>assets/countries.json\<close> and downloads one
  flag image per code into \<^verbatim>\<open>assets/flags\<close>.

  JavaScript strings are HOL strings: sequences of code units below \<^verbatim>\<open>0x100\<close>. What the
  runtime and the machine decide is a parameter of the model, collected in the record
  \<open>host\<close>: the network (\<^verbatim>\<open>fetch\<close>), the collation of the default locale
  (\<^verbatim>\<open>String.prototype.localeCompare\<close>), the upper-case mapping of the characters beyond
  ASCII, and whether the write of a downloaded file succeeds. The file system is a map
  from paths to contents, paths are written relative to the root of the repository,
  directories are not represented (\<^verbatim>\<open>mkdir\<close> with \<^verbatim>\<open>recursive: true\<close> succeeds) and the
  write of the list file succeeds. An exception is a value: a function that can throw
  returns its result or its error, together with the world it leaves.
\<close>

subsection \<open>Strings\<close>

definition lower_letters :: string where
  "lower_letters = ''abcdefghijklmnopqrstuvwxyz''"

definition upper_letters :: string where
  "upper_letters = ''ABCDEFGHIJKLMNOPQRSTUVWXYZ''"

text \<open>
  The conversions of case on the characters of the ASCII range: the letters a-z and A-Z
  are mapped, every other character is left as it is. \<^verbatim>\<open>toLowerCase\<close> is applied to the
  codes that passed the filter and to the values of options.
\<close>

definition upper_char :: "char \<Rightarrow> char" where
  "upper_char c = (case map_of (zip lower_letters upper_letters) c of None \<Rightarrow> c | Some u \<Rightarrow> u)"

definition lower_char :: "char \<Rightarrow> char" where
  "lower_char c = (case map_of (zip upper_letters lower_letters) c of None \<Rightarrow> c | Some l \<Rightarrow> l)"

definition toLowerCase :: "string \<Rightarrow> string" where
  "toLowerCase s = map lower_char s"

text \<open>The regular expression \<^verbatim>\<open>/^[A-Z]{2}$/\<close>: exactly two characters, both in A-Z.\<close>

definition is_AZ :: "char \<Rightarrow> bool" where
  "is_AZ c = (c \<in> set upper_letters)"

definition test_AZ2 :: "string \<Rightarrow> bool" where
  "test_AZ2 s = (case s of [a, b] \<Rightarrow> is_AZ a \<and> is_AZ b | _ \<Rightarrow> False)"

text \<open>A text of ASCII characters; a text of exactly two letters, of either case.\<close>

definition is_ascii :: "string \<Rightarrow> bool" where
  "is_ascii s = list_all (\<lambda>c. (of_char c :: nat) < 128) s"



text \<open>Decimal text of a natural number, as a template literal prints it.\<close>

definition digit_char :: "nat \<Rightarrow> char" where
  "digit_char d = ''0123456789'' ! (d mod 10)"

fun digits_acc :: "nat \<Rightarrow> nat \<Rightarrow> string \<Rightarrow> string" where
  "digits_acc 0 n acc = acc"
| "digits_acc (Suc fuel) n acc =
     (if n < 10 then digit_char n # acc
      else digits_acc fuel (n div 10) (digit_char n # acc))"

definition show_nat :: "nat \<Rightarrow> string" where
  "show_nat n = digits_acc (Suc n) n []"

subsection \<open>The objects of the remote list and the simplified records\<close>

text \<open>
  A country object of \<^verbatim>\<open>restcountries.com/v3.1/all?fields=cca2,name,region\<close>: \<^verbatim>\<open>cca2\<close> is a
  string, \<^verbatim>\<open>name\<close> an object whose \<^verbatim>\<open>common\<close> is a string, \<^verbatim>\<open>region\<close> a string. A field
  that is absent (or \<^verbatim>\<open>null\<close>) is \<open>None\<close>.
\<close>

record country_name =
  common :: "string option"

record api_country =
  cca2 :: "string option"
  api_name :: "country_name option"
  region :: "string option"

record country =
  code :: string
  name :: string

text \<open>\<^verbatim>\<open>x || ''\<close> for a string that may be absent.\<close>

definition or_empty :: "string option \<Rightarrow> string" where
  "or_empty x = (case x of None \<Rightarrow> [] | Some s \<Rightarrow> s)"

text \<open>\<^verbatim>\<open>c.name?.common\<close>\<close>

definition name_common :: "api_country \<Rightarrow> string option" where
  "name_common c = (case api_name c of None \<Rightarrow> None | Some n \<Rightarrow> common n)"

subsection \<open>Sorting with a comparator\<close>

text \<open>
  \<^verbatim>\<open>Array.prototype.sort\<close> is stable, and for a consistent comparator its result is the
  stable sorted arrangement of the array: the one that stable insertion computes. An
  element goes in front of the first element it does not compare greater than.
\<close>

fun place :: "('a \<Rightarrow> 'a \<Rightarrow> int) \<Rightarrow> 'a \<Rightarrow> 'a list \<Rightarrow> 'a list" where
  "place cmp x [] = [x]"
| "place cmp x (y # ys) = (if cmp x y \<le> 0 then x # y # ys else y # place cmp x ys)"

fun js_sort :: "('a \<Rightarrow> 'a \<Rightarrow> int) \<Rightarrow> 'a list \<Rightarrow> 'a list" where
  "js_sort cmp [] = []"
| "js_sort cmp (x # xs) = place cmp x (js_sort cmp xs)"

text \<open>
  The hypothesis on a comparator: the order it induces is total and transitive, as it is
  for the consistent comparators of ECMA-262.
\<close>

definition consistent :: "('a \<Rightarrow> 'a \<Rightarrow> int) \<Rightarrow> bool" where
  "consistent cmp \<longleftrightarrow>
     (\<forall>a b. cmp a b \<le> 0 \<or> cmp b a \<le> 0) \<and>
     (\<forall>a b c. cmp a b \<le> 0 \<longrightarrow> cmp b c \<le> 0 \<longrightarrow> cmp a c \<le> 0)"

subsection \<open>The host, the network and the file system\<close>

datatype response_type = Basic | Cors | Default | Error | Opaque | Opaqueredirect

text \<open>What \<^verbatim>\<open>arrayBuffer()\<close> settles to: the bytes of the body, or a rejection with its message.\<close>

datatype read_result = ReadRejected string | ReadBytes string

text \<open>
  A \<^verbatim>\<open>Response\<close>: \<open>body\<close> is what \<^verbatim>\<open>arrayBuffer()\<close> yields, \<open>json_data\<close> what \<^verbatim>\<open>json()\<close>
  yields when the body is a JSON list of country objects (\<open>None\<close> when \<^verbatim>\<open>json()\<close> or the
  \<^verbatim>\<open>map\<close> over its result throws).
\<close>

record response =
  ok :: bool
  status :: nat
  rtype :: response_type
  body :: read_result
  json_data :: "api_country list option"

datatype fetch_result = Rejected string | Resolved response

text \<open>
  \<open>fetch_at h k u\<close> is the outcome of requesting \<open>u\<close> when \<open>k\<close> requests have been made
  before: the network may answer the same address differently at different times.
\<close>

text \<open>
  \<open>upper_non_ascii h c\<close> is what \<^verbatim>\<open>toUpperCase\<close> makes of a character \<open>c\<close> beyond ASCII, by
  the case tables of Unicode: a string, which can be longer than one character.
  \<open>write_error h p\<close> is the message with which \<^verbatim>\<open>writeFile\<close> rejects a download to the
  path \<open>p\<close>, \<open>None\<close> when the write succeeds; a rejected write leaves the files as they
  are.
\<close>

record host =
  fetch_at :: "nat \<Rightarrow> string \<Rightarrow> fetch_result"
  localeCompare :: "string \<Rightarrow> string \<Rightarrow> int"
  upper_non_ascii :: "char \<Rightarrow> string"
  write_error :: "string \<Rightarrow> string option"

text \<open>
  \<^verbatim>\<open>String.prototype.toUpperCase\<close> maps each character by itself: the letters a-z to A-Z,
  the other characters of the ASCII range to themselves, a character beyond ASCII as the
  host's tables say.
\<close>

definition upper_unit :: "host \<Rightarrow> char \<Rightarrow> string" where
  "upper_unit h c = (if (of_char c :: nat) < 128 then [upper_char c] else upper_non_ascii h c)"

definition toUpperCase :: "host \<Rightarrow> string \<Rightarrow> string" where
  "toUpperCase h s = concat (map (upper_unit h) s)"

record world =
  files :: "string \<rightharpoonup> string"
  requests :: "string list"
  console :: "string list"

datatype error =
  FetchRejected string
  | JsonRejected
  | CountriesFailed nat
  | DownloadFailed string nat
  | BodyRejected string
  | WriteRejected string

fun message :: "error \<Rightarrow> string" where
  "message (FetchRejected m) = m"
| "message (BodyRejected m) = m"
| "message (WriteRejected m) = m"
| "message JsonRejected = ''Unexpected token''"
| "message (CountriesFailed st) = ''Failed to fetch countries: '' @ show_nat st"
| "message (DownloadFailed u st) = ''Failed '' @ u @ '' -> '' @ show_nat st"

definition fetch :: "host \<Rightarrow> world \<Rightarrow> string \<Rightarrow> fetch_result \<times> world" where
  "fetch h w u = (fetch_at h (length (requests w)) u, w\<lparr>requests := requests w @ [u]\<rparr>)"

definition writeFile :: "world \<Rightarrow> string \<Rightarrow> string \<Rightarrow> world" where
  "writeFile w p content = w\<lparr>files := (files w)(p \<mapsto> content)\<rparr>"

definition fileExists :: "world \<Rightarrow> string \<Rightarrow> bool" where
  "fileExists w p = (p \<in> dom (files w))"

definition console_log :: "world \<Rightarrow> string \<Rightarrow> world" where
  "console_log w line = w\<lparr>console := console w @ [line]\<rparr>"

definition path_join :: "string \<Rightarrow> string \<Rightarrow> string" where
  "path_join dir file = dir @ ''/'' @ file"

definition ASSETS :: string where
  "ASSETS = ''assets''"

definition FLAGS_DIR :: string where
  "FLAGS_DIR = path_join ASSETS ''flags''"

definition COUNTRIES_JSON :: string where
  "COUNTRIES_JSON = path_join ASSETS ''countries.json''"

definition FLAGCDN_BASE :: string where
  "FLAGCDN_BASE = ''https://flagcdn.com''"

definition FLAGSAPI_BASE :: string where
  "FLAGSAPI_BASE = ''https://flagsapi.com''"

definition COUNTRIES_URL :: string where
  "COUNTRIES_URL = ''https://restcountries.com/v3.1/all?fields=cca2,name,region''"

subsection \<open>\<^verbatim>\<open>fetchCountries\<close>\<close>

text \<open>The callback of \<^verbatim>\<open>map\<close>, line 63.\<close>

definition reshape :: "host \<Rightarrow> api_country \<Rightarrow> country" where
  "reshape h c = \<lparr>code = toUpperCase h (or_empty (cca2 c)), name = or_empty (name_common c)\<rparr>"

text \<open>The callback of \<^verbatim>\<open>filter\<close>, line 64.\<close>

definition keep :: "country \<Rightarrow> bool" where
  "keep c = (test_AZ2 (code c) \<and> name c \<noteq> [] \<and> code c \<noteq> ''XK'')"

text \<open>Lines 62 to 65: \<^verbatim>\<open>map\<close>, \<^verbatim>\<open>filter\<close>, \<^verbatim>\<open>sort\<close>.\<close>

definition by_name :: "host \<Rightarrow> country \<Rightarrow> country \<Rightarrow> int" where
  "by_name h a b = localeCompare h (name a) (name b)"

definition simple :: "host \<Rightarrow> api_country list \<Rightarrow> country list" where
  "simple h data = js_sort (by_name h) (filter keep (map (reshape h) data))"

definition fetchCountries :: "host \<Rightarrow> world \<Rightarrow> (error + country list) \<times> world" where
  "fetchCountries h w =
     (case fetch h w COUNTRIES_URL of
        (Rejected m, w') \<Rightarrow> (Inl (FetchRejected m), w')
      | (Resolved res, w') \<Rightarrow>
          if \<not> ok res then (Inl (CountriesFailed (status res)), w')
          else (case json_data res of
                  None \<Rightarrow> (Inl JsonRejected, w')
                | Some data \<Rightarrow> (Inr (simple h data), w')))"

subsection \<open>\<^verbatim>\<open>saveCountriesJson\<close>\<close>

text \<open>\<^verbatim>\<open>JSON.stringify(items, null, 2)\<close> on a list of \<^verbatim>\<open>{code, name}\<close> records.\<close>

definition nl :: string where
  "nl = [CHR 0x0A]"

definition hex_char :: "nat \<Rightarrow> char" where
  "hex_char d = ''0123456789abcdef'' ! (d mod 16)"

definition json_escape :: "char \<Rightarrow> string" where
  "json_escape c =
     (if c = CHR 0x22 then [CHR 0x5C, CHR 0x22]
      else if c = CHR 0x5C then [CHR 0x5C, CHR 0x5C]
      else if c = CHR 0x08 then [CHR 0x5C, CHR ''b'']
      else if c = CHR 0x0C then [CHR 0x5C, CHR ''f'']
      else if c = CHR 0x0A then [CHR 0x5C, CHR ''n'']
      else if c = CHR 0x0D then [CHR 0x5C, CHR ''r'']
      else if c = CHR 0x09 then [CHR 0x5C, CHR ''t'']
      else if (of_char c :: nat) < 32
        then [CHR 0x5C, CHR ''u'', CHR ''0'', CHR ''0'', hex_char (of_char c div 16), hex_char (of_char c)]
      else [c])"

definition json_quote :: "string \<Rightarrow> string" where
  "json_quote s = CHR 0x22 # concat (map json_escape s) @ [CHR 0x22]"

fun join_with :: "string \<Rightarrow> string list \<Rightarrow> string" where
  "join_with sep [] = []"
| "join_with sep [x] = x"
| "join_with sep (x # y # ys) = x @ sep @ join_with sep (y # ys)"

definition stringify_country :: "country \<Rightarrow> string" where
  "stringify_country c =
     ''  {'' @ nl @
     ''    '' @ json_quote ''code'' @ '': '' @ json_quote (code c) @ '','' @ nl @
     ''    '' @ json_quote ''name'' @ '': '' @ json_quote (name c) @ nl @
     ''  }''"

definition JSON_stringify :: "country list \<Rightarrow> string" where
  "JSON_stringify items =
     (if items = [] then ''[]''
      else ''['' @ nl @ join_with ('','' @ nl) (map stringify_country items) @ nl @ '']'')"

definition saveCountriesJson :: "world \<Rightarrow> country list \<Rightarrow> world" where
  "saveCountriesJson w items =
     console_log (writeFile w COUNTRIES_JSON (JSON_stringify items))
       (''Wrote '' @ COUNTRIES_JSON @ '' ('' @ show_nat (length items) @ '' countries)'')"

subsection \<open>Reading the file back\<close>

text \<open>
  A reader for the text that \<^verbatim>\<open>saveCountriesJson\<close> writes. It accepts a list of objects
  with the two members \<^verbatim>\<open>code\<close> and \<^verbatim>\<open>name\<close>, in that order and laid out as
  \<^verbatim>\<open>JSON.stringify\<close> lays them out with an indentation of two, and nothing else.
\<close>

definition unescape :: "char \<Rightarrow> char option" where
  "unescape e =
     (if e = CHR 0x22 then Some (CHR 0x22)
      else if e = CHR 0x5C then Some (CHR 0x5C)
      else if e = CHR ''b'' then Some (CHR 0x08)
      else if e = CHR ''f'' then Some (CHR 0x0C)
      else if e = CHR ''n'' then Some (CHR 0x0A)
      else if e = CHR ''r'' then Some (CHR 0x0D)
      else if e = CHR ''t'' then Some (CHR 0x09)
      else None)"

definition hex_val :: "char \<Rightarrow> nat option" where
  "hex_val c =
     map_of (zip ''0123456789abcdef'' [0, 1, 2, 3, 4, 5, 6, 7, 8, 9, 10, 11, 12, 13, 14, 15]) c"

text \<open>The characters of a quoted string after its opening quote, and the rest of the text.\<close>

fun read_chars :: "string \<Rightarrow> (string \<times> string) option" where
  "read_chars [] = None"
| "read_chars (c # cs) =
     (if c = CHR 0x22 then Some ([], cs)
      else if c = CHR 0x5C then
        (case cs of
           [] \<Rightarrow> None
         | e # cs1 \<Rightarrow>
             if e = CHR ''u'' then
               (case cs1 of
                  a # b # x # y # cs2 \<Rightarrow>
                    (if a = CHR ''0'' \<and> b = CHR ''0'' then
                       (case (hex_val x, hex_val y, read_chars cs2) of
                          (Some m, Some n, Some (s, r)) \<Rightarrow> Some (char_of (16 * m + n) # s, r)
                        | _ \<Rightarrow> None)
                     else None)
                | _ \<Rightarrow> None)
             else
               (case (unescape e, read_chars cs1) of
                  (Some ch, Some (s, r)) \<Rightarrow> Some (ch # s, r)
                | _ \<Rightarrow> None))
      else (case read_chars cs of Some (s, r) \<Rightarrow> Some (c # s, r) | None \<Rightarrow> None))"

definition read_quoted :: "string \<Rightarrow> (string \<times> string) option" where
  "read_quoted t = (case t of [] \<Rightarrow> None | c # cs \<Rightarrow> if c = CHR 0x22 then read_chars cs else None)"

definition expect :: "string \<Rightarrow> string \<Rightarrow> string option" where
  "expect p t = (if take (length p) t = p then Some (drop (length p) t) else None)"

definition obj_open :: string where
  "obj_open = ''  {'' @ nl @ ''    '' @ json_quote ''code'' @ '': ''"

definition obj_mid :: string where
  "obj_mid = '','' @ nl @ ''    '' @ json_quote ''name'' @ '': ''"

definition obj_close :: string where
  "obj_close = nl @ ''  }''"

definition read_country :: "string \<Rightarrow> (country \<times> string) option" where
  "read_country t =
     (case expect obj_open t of
        None \<Rightarrow> None
      | Some t1 \<Rightarrow>
     (case read_quoted t1 of
        None \<Rightarrow> None
      | Some (c, t2) \<Rightarrow>
     (case expect obj_mid t2 of
        None \<Rightarrow> None
      | Some t3 \<Rightarrow>
     (case read_quoted t3 of
        None \<Rightarrow> None
      | Some (n, t4) \<Rightarrow>
     (case expect obj_close t4 of
        None \<Rightarrow> None
      | Some t5 \<Rightarrow> Some (\<lparr>code = c, name = n\<rparr>, t5))))))"

definition list_open :: string where
  "list_open = ''['' @ nl"

definition item_sep :: string where
  "item_sep = '','' @ nl"

definition list_close :: string where
  "list_close = nl @ '']''"

text \<open>The objects up to the closing bracket; the fuel bounds their number.\<close>

fun read_countries :: "nat \<Rightarrow> string \<Rightarrow> country list option" where
  "read_countries 0 t = None"
| "read_countries (Suc k) t =
     (case read_country t of
        None \<Rightarrow> None
      | Some (c, r) \<Rightarrow>
          if r = list_close then Some [c]
          else (case expect item_sep r of
                  None \<Rightarrow> None
                | Some r' \<Rightarrow> map_option ((#) c) (read_countries k r')))"

definition read_countries_json :: "string \<Rightarrow> country list option" where
  "read_countries_json t =
     (if t = ''[]'' then Some []
      else case expect list_open t of
             None \<Rightarrow> None
           | Some r \<Rightarrow> read_countries (length t) r)"

subsection \<open>\<^verbatim>\<open>download\<close>, \<^verbatim>\<open>svgUrl\<close>, \<^verbatim>\<open>pngUrl\<close>\<close>

text \<open>
  Lines 76 to 81. The \<^verbatim>\<open>await\<close> of \<^verbatim>\<open>fetch\<close>, of \<^verbatim>\<open>res.arrayBuffer()\<close> and of \<^verbatim>\<open>writeFile\<close> each
  throw on what their promise rejects with.
\<close>

definition download :: "host \<Rightarrow> world \<Rightarrow> string \<Rightarrow> string \<Rightarrow> (error + unit) \<times> world" where
  "download h w u destPath =
     (case fetch h w u of
        (Rejected m, w') \<Rightarrow> (Inl (FetchRejected m), w')
      | (Resolved res, w') \<Rightarrow>
          if \<not> ok res \<and> rtype res \<noteq> Opaque then (Inl (DownloadFailed u (status res)), w')
          else (case body res of
                  ReadRejected m \<Rightarrow> (Inl (BodyRejected m), w')
                | ReadBytes buf \<Rightarrow>
                    (case write_error h destPath of
                       Some m \<Rightarrow> (Inl (WriteRejected m), w')
                     | None \<Rightarrow> (Inr (), writeFile w' destPath buf))))"

definition svgUrl :: "string \<Rightarrow> string" where
  "svgUrl c = FLAGCDN_BASE @ ''/'' @ toLowerCase c @ ''.svg''"

text \<open>
  \<^verbatim>\<open>pngUrl(code, size = 512, style = 'flat')\<close>; its only call passes the code alone, so
  the defaults are written at the call.
\<close>

definition pngUrl :: "string \<Rightarrow> nat \<Rightarrow> string \<Rightarrow> string" where
  "pngUrl c sz style = FLAGSAPI_BASE @ ''/'' @ c @ ''/'' @ style @ ''/'' @ show_nat sz @ ''.png''"

subsection \<open>\<^verbatim>\<open>downloadFlags\<close>\<close>

record opts =
  svg :: bool
  png :: bool
  json :: bool
  both :: bool
  limit :: int
  noFlags :: bool

text \<open>The state of the loop: the world and the two counters \<^verbatim>\<open>ok\<close> and \<^verbatim>\<open>fail\<close>.\<close>

record progress =
  at :: world
  ok_n :: nat
  fail_n :: nat

text \<open>
  Lines 103 to 106 and 110 to 113 are the same statement for the two formats: skip an
  existing file, otherwise download and count the outcome; a throw of \<^verbatim>\<open>download\<close> is
  caught and reported with \<^verbatim>\<open>console.warn\<close>.
\<close>

definition attempt :: "host \<Rightarrow> string \<Rightarrow> string \<Rightarrow> string \<Rightarrow> string \<Rightarrow> progress \<Rightarrow> progress" where
  "attempt h tag c u out p =
     (if fileExists (at p) out then p
      else (case download h (at p) u out of
              (Inr _, w) \<Rightarrow> p\<lparr>at := w, ok_n := ok_n p + 1\<rparr>
            | (Inl e, w) \<Rightarrow>
                p\<lparr>at := console_log w (tag @ '' fail '' @ c @ '' '' @ message e),
                  fail_n := fail_n p + 1\<rparr>))"

definition svg_out :: "string \<Rightarrow> string" where
  "svg_out c = path_join FLAGS_DIR (toLowerCase c @ ''.svg'')"

definition png_out :: "string \<Rightarrow> string" where
  "png_out c = path_join FLAGS_DIR (toLowerCase c @ ''.png'')"

definition flag_iter :: "host \<Rightarrow> bool \<Rightarrow> bool \<Rightarrow> progress \<Rightarrow> string \<Rightarrow> progress" where
  "flag_iter h dlSvg dlPng p c =
     (let p1 = (if dlSvg then attempt h ''SVG'' c (svgUrl c) (svg_out c) p else p)
      in if dlPng then attempt h ''PNG'' c (pngUrl c 512 ''flat'') (png_out c) p1 else p1)"

definition flags_loop :: "host \<Rightarrow> bool \<Rightarrow> bool \<Rightarrow> string list \<Rightarrow> progress \<Rightarrow> progress" where
  "flags_loop h dlSvg dlPng list p = foldl (flag_iter h dlSvg dlPng) p list"

definition capped :: "int \<Rightarrow> string list \<Rightarrow> string list" where
  "capped lim codes = (if lim > 0 then take (nat lim) codes else codes)"

text \<open>
  Lines 94 to 115, the loop with its counters; \<^verbatim>\<open>downloadFlags\<close> then prints the summary
  line.
\<close>

definition flags_run :: "host \<Rightarrow> string list \<Rightarrow> opts \<Rightarrow> world \<Rightarrow> progress" where
  "flags_run h codes os w =
     flags_loop h (svg os \<or> both os) (png os \<or> both os) (capped (limit os) codes)
       \<lparr>at = w, ok_n = 0, fail_n = 0\<rparr>"

definition downloadFlags :: "host \<Rightarrow> string list \<Rightarrow> opts \<Rightarrow> world \<Rightarrow> world" where
  "downloadFlags h codes os w =
     (let p = flags_run h codes os w
      in console_log (at p)
           (''Flags downloaded: '' @ show_nat (ok_n p) @ '', failed: '' @ show_nat (fail_n p)))"

subsection \<open>\<^verbatim>\<open>parseArgs\<close>\<close>

text \<open>\<^verbatim>\<open>a.split('=')\<close> destructured into \<^verbatim>\<open>[k, v]\<close>, for an \<^verbatim>\<open>a\<close> that includes \<^verbatim>\<open>=\<close>.\<close>

definition not_eq_sign :: "char \<Rightarrow> bool" where
  "not_eq_sign c = (c \<noteq> CHR ''='')"

definition split_k :: "string \<Rightarrow> string" where
  "split_k a = takeWhile not_eq_sign a"

definition split_v :: "string \<Rightarrow> string" where
  "split_v a = takeWhile not_eq_sign (tl (dropWhile not_eq_sign a))"

definition toBool :: "string option \<Rightarrow> bool" where
  "toBool x =
     (case x of
        None \<Rightarrow> True
      | Some v \<Rightarrow>
          (let s = toLowerCase v
           in if s = ''false'' \<or> s = ''0'' \<or> s = ''no'' then False else v \<noteq> []))"

text \<open>
  \<^verbatim>\<open>Number(x) || 0\<close> for the texts of a count: white space around an optionally signed
  decimal integer. Every other text is read as 0, as \<^verbatim>\<open>NaN\<close> is; fractions, exponents
  and radix prefixes are not represented, the limit being an integer in the model.
\<close>

definition is_space :: "char \<Rightarrow> bool" where
  "is_space c = (c \<in> set [CHR 0x20, CHR 0x09, CHR 0x0A, CHR 0x0B, CHR 0x0C, CHR 0x0D])"

definition trim :: "string \<Rightarrow> string" where
  "trim s = rev (dropWhile is_space (rev (dropWhile is_space s)))"

definition digit_val :: "char \<Rightarrow> nat option" where
  "digit_val c = map_of (zip ''0123456789'' [0, 1, 2, 3, 4, 5, 6, 7, 8, 9]) c"

fun digits_val :: "nat \<Rightarrow> string \<Rightarrow> nat option" where
  "digits_val acc [] = Some acc"
| "digits_val acc (c # cs) =
     (case digit_val c of None \<Rightarrow> None | Some d \<Rightarrow> digits_val (10 * acc + d) cs)"

definition unsigned_val :: "string \<Rightarrow> int" where
  "unsigned_val s = (if s = [] then 0 else case digits_val 0 s of None \<Rightarrow> 0 | Some n \<Rightarrow> int n)"

definition Number_or_0 :: "string \<Rightarrow> int" where
  "Number_or_0 s =
     (case trim s of
        [] \<Rightarrow> 0
      | c # cs \<Rightarrow>
          if c = CHR ''-'' then - unsigned_val cs
          else if c = CHR ''+'' then unsigned_val cs
          else unsigned_val (c # cs))"

text \<open>Lines 24 to 29: the option \<^verbatim>\<open>a\<close> and its value \<^verbatim>\<open>val\<close> read from one argument.\<close>

definition opt_name :: "string \<Rightarrow> string" where
  "opt_name arg = (if CHR ''='' \<in> set arg then split_k arg else arg)"

definition opt_val :: "string \<Rightarrow> string option" where
  "opt_val arg = (if CHR ''='' \<in> set arg then Some (split_v arg) else None)"

text \<open>
  The loop over \<^verbatim>\<open>args\<close>. \<^verbatim>\<open>--limit\<close> without \<^verbatim>\<open>=\<close> takes the next argument as its value
  (\<^verbatim>\<open>args[++i]\<close>), which the loop then does not read as an option.
\<close>

fun parse_loop :: "string list \<Rightarrow> opts \<Rightarrow> opts" where
  "parse_loop [] os = os"
| "parse_loop (arg # rest) os =
     (let a = opt_name arg; val = opt_val arg
      in if a = ''--svg'' then parse_loop rest (os\<lparr>svg := toBool val\<rparr>)
         else if a = ''--png'' then parse_loop rest (os\<lparr>png := toBool val\<rparr>)
         else if a = ''--both'' then parse_loop rest (os\<lparr>both := toBool val\<rparr>)
         else if a = ''--no-flags''
           then parse_loop rest (os\<lparr>noFlags := True, svg := False, png := False, both := False\<rparr>)
         else if a = ''--only=json''
           then parse_loop rest
                  (os\<lparr>json := True, noFlags := True, svg := False, png := False, both := False\<rparr>)
         else if a = ''--no-json'' then parse_loop rest (os\<lparr>json := False\<rparr>)
         else if a = ''--json'' then parse_loop rest (os\<lparr>json := toBool val\<rparr>)
         else if a = ''--limit''
           then (case val of
                   Some v \<Rightarrow> parse_loop rest (os\<lparr>limit := Number_or_0 v\<rparr>)
                 | None \<Rightarrow>
                     (case rest of
                        [] \<Rightarrow> os\<lparr>limit := 0\<rparr>
                      | nxt # rest' \<Rightarrow> parse_loop rest' (os\<lparr>limit := Number_or_0 nxt\<rparr>)))
         else parse_loop rest os)"

text \<open>
  What one argument does to the options when it is not a \<^verbatim>\<open>--limit\<close> that takes the next
  argument: the body of the loop without its recursion.
\<close>

definition handle_arg :: "string \<Rightarrow> opts \<Rightarrow> opts" where
  "handle_arg arg os =
     (let a = opt_name arg; val = opt_val arg
      in if a = ''--svg'' then os\<lparr>svg := toBool val\<rparr>
         else if a = ''--png'' then os\<lparr>png := toBool val\<rparr>
         else if a = ''--both'' then os\<lparr>both := toBool val\<rparr>
         else if a = ''--no-flags''
           then os\<lparr>noFlags := True, svg := False, png := False, both := False\<rparr>
         else if a = ''--only=json''
           then os\<lparr>json := True, noFlags := True, svg := False, png := False, both := False\<rparr>
         else if a = ''--no-json'' then os\<lparr>json := False\<rparr>
         else if a = ''--json'' then os\<lparr>json := toBool val\<rparr>
         else if a = ''--limit''
           then (case val of Some v \<Rightarrow> os\<lparr>limit := Number_or_0 v\<rparr> | None \<Rightarrow> os)
         else os)"

definition initial_opts :: opts where
  "initial_opts = \<lparr>svg = False, png = False, json = True, both = False, limit = 0, noFlags = False\<rparr>"

definition parseArgs :: "string list \<Rightarrow> opts" where
  "parseArgs args =
     (let os = parse_loop args initial_opts
      in if \<not> noFlags os \<and> \<not> svg os \<and> \<not> png os \<and> \<not> both os then os\<lparr>svg := True\<rparr> else os)"

subsection \<open>\<^verbatim>\<open>main\<close>\<close>

definition main :: "host \<Rightarrow> string list \<Rightarrow> world \<Rightarrow> (error + unit) \<times> world" where
  "main h args w =
     (let os = parseArgs args
      in case fetchCountries h w of
           (Inl e, w1) \<Rightarrow> (Inl e, w1)
         | (Inr countries, w1) \<Rightarrow>
             (let w2 = (if json os then saveCountriesJson w1 countries else w1);
                  codes = map code countries
              in if \<not> noFlags os \<and> (svg os \<or> png os \<or> both os)
                 then (Inr (), downloadFlags h codes os w2)
                 else (Inr (), w2)))"

subsection \<open>A sample host\<close>

text \<open>
  For the evaluations on concrete inputs: a collation that compares the character codes
  from left to right, and a network that answers the list address with three country
  objects, refuses the vector flag of \<^verbatim>\<open>FR\<close> with status 404, answers the raster flag of
  \<^verbatim>\<open>US\<close> with an opaque response and serves every other address. Every write succeeds.
  Beyond ASCII the upper-case mapping is that of Unicode on the characters whose capital
  is below \<^verbatim>\<open>0x100\<close>: the sharp s \<^verbatim>\<open>U+00DF\<close> becomes \<^verbatim>\<open>SS\<close>, the letters \<^verbatim>\<open>U+00E0\<close> to
  \<^verbatim>\<open>U+00FE\<close> other than the division sign lose \<^verbatim>\<open>0x20\<close>. The two letters whose capital
  lies beyond \<^verbatim>\<open>0xFF\<close>, \<^verbatim>\<open>U+00B5\<close> and \<^verbatim>\<open>U+00FF\<close>, are left as they are.
\<close>

definition latin1_upper :: "char \<Rightarrow> string" where
  "latin1_upper c =
     (if c = CHR 0xDF then ''SS''
      else if 0xE0 \<le> (of_char c :: nat) \<and> (of_char c :: nat) \<le> 0xFE \<and> c \<noteq> CHR 0xF7
        then [char_of (of_char c - 0x20 :: nat)]
      else [c])"

fun compare_codes :: "string \<Rightarrow> string \<Rightarrow> int" where
  "compare_codes [] [] = 0"
| "compare_codes [] (y # ys) = - 1"
| "compare_codes (x # xs) [] = 1"
| "compare_codes (x # xs) (y # ys) =
     (if (of_char x :: nat) < of_char y then - 1
      else if (of_char y :: nat) < of_char x then 1
      else compare_codes xs ys)"

definition sample_list :: "api_country list" where
  "sample_list =
     [\<lparr>cca2 = Some ''AA'', api_name = None, region = None\<rparr>,
      \<lparr>cca2 = Some ''US'', api_name = Some \<lparr>common = Some ''United States''\<rparr>,
         region = Some ''Americas''\<rparr>,
      \<lparr>cca2 = Some ''FR'', api_name = Some \<lparr>common = Some ''France''\<rparr>,
         region = Some ''Europe''\<rparr>]"

definition sample_fetch :: "nat \<Rightarrow> string \<Rightarrow> fetch_result" where
  "sample_fetch k u =
     (if u = COUNTRIES_URL
        then Resolved \<lparr>ok = True, status = 200, rtype = Basic, body = ReadBytes [],
               json_data = Some sample_list\<rparr>
      else if u = svgUrl ''FR''
        then Resolved \<lparr>ok = False, status = 404, rtype = Basic, body = ReadBytes ''Not Found'',
               json_data = None\<rparr>
      else if u = pngUrl ''US'' 512 ''flat''
        then Resolved \<lparr>ok = False, status = 0, rtype = Opaque, body = ReadBytes ''PNG'',
               json_data = None\<rparr>
      else Resolved \<lparr>ok = True, status = 200, rtype = Basic, body = ReadBytes ''<svg/>'',
             json_data = None\<rparr>)"

definition sample_host :: host where
  "sample_host =
     \<lparr>fetch_at = sample_fetch, localeCompare = compare_codes,
      upper_non_ascii = latin1_upper, write_error = (\<lambda>p. None)\<rparr>"

definition empty_world :: world where
  "empty_world = \<lparr>files = Map.empty, requests = [], console = []\<rparr>"

text \<open>
  A host whose list address answers 503, and a world in which the vector flag of \<^verbatim>\<open>US\<close>
  is already on disk.
\<close>

definition offline_host :: host where
  "offline_host =
     \<lparr>fetch_at = (\<lambda>k u. if u = COUNTRIES_URL
                    then Resolved \<lparr>ok = False, status = 503, rtype = Basic, body = ReadBytes [],
                           json_data = None\<rparr>
                    else sample_fetch k u),
      localeCompare = compare_codes,
      upper_non_ascii = latin1_upper, write_error = (\<lambda>p. None)\<rparr>"

definition old_world :: world where
  "old_world = \<lparr>files = [svg_out ''US'' \<mapsto> ''old''], requests = [], console = []\<rparr>"

text \<open>
  A host on which a download fails in each of the three ways that are not the status of
  the response: the address of \<^verbatim>\<open>AA\<close> is not reached, the body of \<^verbatim>\<open>BB\<close> breaks off, the
  file of \<^verbatim>\<open>CC\<close> cannot be written. Every response is ok.
\<close>

definition broken_host :: host where
  "broken_host =
     \<lparr>fetch_at = (\<lambda>k u. if u = svgUrl ''AA'' then Rejected ''fetch failed''
                    else if u = svgUrl ''BB''
                    then Resolved \<lparr>ok = True, status = 200, rtype = Basic,
                           body = ReadRejected ''terminated'', json_data = None\<rparr>
                    else Resolved \<lparr>ok = True, status = 200, rtype = Basic,
                           body = ReadBytes ''<svg/>'', json_data = None\<rparr>),
      localeCompare = compare_codes,
      upper_non_ascii = latin1_upper,
      write_error = (\<lambda>p. if p = svg_out ''CC'' then Some ''EACCES: permission denied''
                         else None)\<rparr>"


definition named_AA_list :: "api_country list" where
  "named_AA_list =
     [\<lparr>cca2 = Some ''AA'', api_name = Some \<lparr>common = Some ''Atlantis''\<rparr>, region = None\<rparr>,
      \<lparr>cca2 = Some ''US'', api_name = Some \<lparr>common = Some ''United States''\<rparr>,
         region = Some ''Americas''\<rparr>,
      \<lparr>cca2 = Some ''FR'', api_name = Some \<lparr>common = Some ''France''\<rparr>,
         region = Some ''Europe''\<rparr>]"

definition twice_FR_list :: "api_country list" where
  "twice_FR_list =
     [\<lparr>cca2 = Some ''FR'', api_name = Some \<lparr>common = Some ''France''\<rparr>, region = None\<rparr>,
      \<lparr>cca2 = Some ''fr'', api_name = Some \<lparr>common = Some ''French Republic''\<rparr>,
         region = None\<rparr>]"

subsection \<open>What a run of the flag loop may change\<close>

text \<open>The requests made between two worlds of one run.\<close>

definition new_requests :: "world \<Rightarrow> world \<Rightarrow> string list" where
  "new_requests w w' = drop (length (requests w)) (requests w')"

text \<open>The pairs of address and destination that the loop over \<open>list\<close> can ask for.\<close>

definition targets :: "bool \<Rightarrow> bool \<Rightarrow> string list \<Rightarrow> (string \<times> string) set" where
  "targets dlSvg dlPng list =
     {(svgUrl c, svg_out c) | c. dlSvg \<and> c \<in> set list} \<union>
     {(pngUrl c 512 ''flat'', png_out c) | c. dlPng \<and> c \<in> set list}"

text \<open>
  \<open>advances T p p'\<close>: from \<open>p\<close> to \<open>p'\<close> the trace of requests and the console were only
  extended, every new request is counted once, as a success or as a failure, every
  failure has its console line, every new request is for a pair of \<open>T\<close> whose destination
  did not exist at \<open>p\<close>, no existing file changed, and every new file was asked for.
\<close>

definition advances :: "(string \<times> string) set \<Rightarrow> progress \<Rightarrow> progress \<Rightarrow> bool" where
  "advances T p p' \<longleftrightarrow>
     (\<exists>new warns.
         requests (at p') = requests (at p) @ new
       \<and> console (at p') = console (at p) @ warns
       \<and> ok_n p' + fail_n p' = ok_n p + fail_n p + length new
       \<and> fail_n p' = fail_n p + length warns
       \<and> (\<forall>u \<in> set new. \<exists>out. (u, out) \<in> T \<and> out \<notin> dom (files (at p))))
     \<and> (\<forall>q \<in> dom (files (at p)). files (at p') q = files (at p) q)
     \<and> (\<forall>q \<in> dom (files (at p')).
           q \<in> dom (files (at p)) \<or> (\<exists>u. (u, q) \<in> T \<and> u \<in> set (new_requests (at p) (at p'))))"

section \<open>Properties\<close>

subsection \<open>The sort\<close>

lemma mset_place: "mset (place cmp x xs) = add_mset x (mset xs)"
  by (induction xs) simp_all

lemma mset_js_sort: "mset (js_sort cmp xs) = mset xs"
  by (induction xs) (simp_all add: mset_place)

lemma set_js_sort: "set (js_sort cmp xs) = set xs"
  using mset_js_sort [of cmp xs] by (metis set_mset_mset)


lemma set_place: "set (place cmp x xs) = insert x (set xs)"
  by (induction xs) auto

lemma sorted_place:
  assumes "consistent cmp" and "sorted_wrt (\<lambda>a b. cmp a b \<le> 0) xs"
  shows "sorted_wrt (\<lambda>a b. cmp a b \<le> 0) (place cmp x xs)"
  using assms(2)
proof (induction xs)
  case Nil
  then show ?case by simp
next
  case (Cons y ys)
  have total: "cmp a b \<le> 0 \<or> cmp b a \<le> 0" for a b
    using assms(1) unfolding consistent_def by blast
  have trans: "cmp a b \<le> 0 \<Longrightarrow> cmp b c \<le> 0 \<Longrightarrow> cmp a c \<le> 0" for a b c
    using assms(1) unfolding consistent_def by blast
  from Cons.prems have tail: "sorted_wrt (\<lambda>a b. cmp a b \<le> 0) ys"
    and head: "\<forall>z \<in> set ys. cmp y z \<le> 0"
    by simp_all
  show ?case
  proof (cases "cmp x y \<le> 0")
    case True
    then have "\<forall>z \<in> set ys. cmp x z \<le> 0"
      using head trans by blast
    with True Cons.prems show ?thesis by simp
  next
    case False
    then have "cmp y x \<le> 0" using total [of x y] by simp
    with False head Cons.IH [OF tail] show ?thesis
      by (simp add: set_place)
  qed
qed

lemma sorted_js_sort:
  "consistent cmp \<Longrightarrow> sorted_wrt (\<lambda>a b. cmp a b \<le> 0) (js_sort cmp xs)"
  by (induction xs) (simp_all add: sorted_place)

text \<open>
  The sort is stable: the elements that compare equal to a given one keep the order they
  had.
\<close>

lemma filter_place:
  assumes "consistent cmp"
  shows "filter (\<lambda>y. cmp k y \<le> 0 \<and> cmp y k \<le> 0) (place cmp x ys) =
    (if cmp k x \<le> 0 \<and> cmp x k \<le> 0
     then x # filter (\<lambda>y. cmp k y \<le> 0 \<and> cmp y k \<le> 0) ys
     else filter (\<lambda>y. cmp k y \<le> 0 \<and> cmp y k \<le> 0) ys)"
proof (induction ys)
  case Nil
  show ?case by simp
next
  case (Cons y ys)
  have trans: "cmp a b \<le> 0 \<Longrightarrow> cmp b c \<le> 0 \<Longrightarrow> cmp a c \<le> 0" for a b c
    using assms unfolding consistent_def by blast
  show ?case
  proof (cases "cmp x y \<le> 0")
    case True
    then show ?thesis by simp
  next
    case False
    then have "\<not> ((cmp k x \<le> 0 \<and> cmp x k \<le> 0) \<and> (cmp k y \<le> 0 \<and> cmp y k \<le> 0))"
      using trans [of x k y] by blast
    with False Cons.IH show ?thesis
      by auto
  qed
qed

lemma js_sort_stable:
  assumes "consistent cmp"
  shows "filter (\<lambda>y. cmp k y \<le> 0 \<and> cmp y k \<le> 0) (js_sort cmp xs) =
         filter (\<lambda>y. cmp k y \<le> 0 \<and> cmp y k \<le> 0) xs"
  by (induction xs) (simp_all add: filter_place [OF assms])

lemma compare_codes_total: "compare_codes a b \<le> 0 \<or> compare_codes b a \<le> 0"
  by (induction a b rule: compare_codes.induct) auto

lemma compare_codes_trans:
  "compare_codes a b \<le> 0 \<Longrightarrow> compare_codes b c \<le> 0 \<Longrightarrow> compare_codes a c \<le> 0"
proof (induction a b arbitrary: c rule: compare_codes.induct)
  case 1
  then show ?case by simp
next
  case (2 y ys)
  then show ?case by (cases c) simp_all
next
  case (3 x xs)
  then show ?case by simp
next
  case (4 x xs y ys)
  show ?case
  proof (cases c)
    case Nil
    with "4.prems" show ?thesis by simp
  next
    case (Cons z zs)
    let ?x = "of_char x :: nat" and ?y = "of_char y :: nat" and ?z = "of_char z :: nat"
    from "4.prems"(1) have xy: "?x < ?y \<or> (?x = ?y \<and> compare_codes xs ys \<le> 0)"
      by (simp split: if_splits)
    from "4.prems"(2) Cons have yz: "?y < ?z \<or> (?y = ?z \<and> compare_codes ys zs \<le> 0)"
      by (simp split: if_splits)
    show ?thesis
    proof (cases "?x < ?z")
      case True
      with Cons show ?thesis by simp
    next
      case False
      with xy yz have eq: "?x = ?y" "?y = ?z"
        and rec: "compare_codes xs ys \<le> 0" "compare_codes ys zs \<le> 0"
        by auto
      have "compare_codes xs zs \<le> 0"
        using "4.IH" [of zs] eq rec by simp
      with eq Cons show ?thesis by simp
    qed
  qed
qed

lemma consistent_compare_codes: "consistent compare_codes"
  unfolding consistent_def using compare_codes_total compare_codes_trans by blast

lemma consistent_sample: "consistent (localeCompare sample_host)"
  by (simp add: sample_host_def consistent_compare_codes)

subsection \<open>The simplified list\<close>

lemma set_simple: "set (simple h data) = {r \<in> reshape h ` set data. keep r}"
  by (auto simp: simple_def set_js_sort)


lemma consistent_by_name: "consistent (localeCompare h) \<Longrightarrow> consistent (by_name h)"
  unfolding consistent_def by_name_def by blast

lemma sorted_simple:
  "consistent (localeCompare h) \<Longrightarrow>
     sorted_wrt (\<lambda>a b. localeCompare h (name a) (name b) \<le> 0) (simple h data)"
  using sorted_js_sort [OF consistent_by_name, of h] by (simp add: simple_def by_name_def)

lemma test_AZ2_iff: "test_AZ2 s \<longleftrightarrow> length s = 2 \<and> (\<forall>c \<in> set s. is_AZ c)"
  by (auto simp: test_AZ2_def split: list.splits)

lemma fetchCountries_resolved:
  assumes "fetch_at h (length (requests w)) COUNTRIES_URL = Resolved res"
    and "ok res" and "json_data res = Some data"
  shows "fetchCountries h w =
           (Inr (simple h data), w\<lparr>requests := requests w @ [COUNTRIES_URL]\<rparr>)"
  using assms by (simp add: fetchCountries_def fetch_def)

text \<open>On a text of ASCII characters \<^verbatim>\<open>toUpperCase\<close> is the mapping of the letters a-z.\<close>

lemma toUpperCase_ascii: "is_ascii s \<Longrightarrow> toUpperCase h s = map upper_char s"
  by (induction s) (simp_all add: toUpperCase_def upper_unit_def is_ascii_def)







lemma sample_fetch_list:
  "fetch_at sample_host (length (requests empty_world)) COUNTRIES_URL =
     Resolved \<lparr>ok = True, status = 200, rtype = Basic, body = ReadBytes [],
       json_data = Some sample_list\<rparr>"
  by (simp add: sample_host_def sample_fetch_def)

lemma simple_sample:
  "simple sample_host sample_list =
     [\<lparr>code = ''FR'', name = ''France''\<rparr>, \<lparr>code = ''US'', name = ''United States''\<rparr>]"
  by code_simp




subsection \<open>Addresses and destinations\<close>

lemma svgUrl_text: "svgUrl c = ''https://flagcdn.com/'' @ toLowerCase c @ ''.svg''"
  by (simp add: svgUrl_def FLAGCDN_BASE_def)

lemma show_nat_512: "show_nat 512 = ''512''"
  by code_simp

lemma pngUrl_text: "pngUrl c 512 ''flat'' = ''https://flagsapi.com/'' @ c @ ''/flat/512.png''"
  by (simp add: pngUrl_def FLAGSAPI_BASE_def show_nat_512)

lemma svg_out_text: "svg_out c = ''assets/flags/'' @ toLowerCase c @ ''.svg''"
  by (simp add: svg_out_def FLAGS_DIR_def ASSETS_def path_join_def)

lemma png_out_text: "png_out c = ''assets/flags/'' @ toLowerCase c @ ''.png''"
  by (simp add: png_out_def FLAGS_DIR_def ASSETS_def path_join_def)

lemma svgUrl_eq_iff: "svgUrl a = svgUrl b \<longleftrightarrow> svg_out a = svg_out b"
  by (simp add: svgUrl_text svg_out_text)

lemma pngUrl_eq_iff: "pngUrl a 512 ''flat'' = pngUrl b 512 ''flat'' \<longleftrightarrow> a = b"
  by (simp add: pngUrl_text)

lemma svgUrl_neq_pngUrl: "svgUrl a \<noteq> pngUrl b 512 ''flat''"
  by (simp add: svgUrl_text pngUrl_text)

lemma svg_out_neq_png_out: "svg_out a \<noteq> png_out b"
  by (simp add: svg_out_text png_out_text)

lemma png_out_eq_iff: "png_out a = png_out b \<longleftrightarrow> toLowerCase a = toLowerCase b"
  by (simp add: png_out_text)

lemma svg_out_neq_json: "svg_out a \<noteq> COUNTRIES_JSON"
  by (simp add: svg_out_text COUNTRIES_JSON_def ASSETS_def path_join_def)

lemma png_out_neq_json: "png_out a \<noteq> COUNTRIES_JSON"
  by (simp add: png_out_text COUNTRIES_JSON_def ASSETS_def path_join_def)

lemma svgUrl_neq_list: "svgUrl a \<noteq> COUNTRIES_URL"
  by (simp add: svgUrl_text COUNTRIES_URL_def)

lemma pngUrl_neq_list: "pngUrl a 512 ''flat'' \<noteq> COUNTRIES_URL"
  by (simp add: pngUrl_text COUNTRIES_URL_def)


subsection \<open>One attempt\<close>

lemma new_requests_append: "requests w' = requests w @ new \<Longrightarrow> new_requests w w' = new"
  by (simp add: new_requests_def)

lemma attempt_skip: "fileExists (at p) out \<Longrightarrow> attempt h tag c u out p = p"
  by (simp add: attempt_def)

lemma attempt_failure:
  assumes "\<not> fileExists (at p) out" and "fst (download h (at p) u out) = Inl e"
  shows "attempt h tag c u out p =
           p\<lparr>at := (at p)\<lparr>requests := requests (at p) @ [u],
                        console := console (at p) @ [tag @ '' fail '' @ c @ '' '' @ message e]\<rparr>,
             fail_n := fail_n p + 1\<rparr>"
  using assms
  by (auto simp: attempt_def download_def fetch_def console_log_def
      split: fetch_result.splits read_result.splits option.splits if_splits)

lemma attempt_success:
  assumes "\<not> fileExists (at p) out" and "fst (download h (at p) u out) = Inr x"
  shows "\<exists>res buf. fetch_at h (length (requests (at p))) u = Resolved res \<and>
           body res = ReadBytes buf \<and>
           attempt h tag c u out p =
             p\<lparr>at := (at p)\<lparr>requests := requests (at p) @ [u],
                          files := (files (at p))(out \<mapsto> buf)\<rparr>,
               ok_n := ok_n p + 1\<rparr>"
  using assms
  by (auto simp: attempt_def download_def fetch_def writeFile_def
      split: fetch_result.splits read_result.splits option.splits if_splits)

lemma attempt_cases:
  obtains (skip) "fileExists (at p) out" "attempt h tag c u out p = p"
  | (failure) line where "\<not> fileExists (at p) out"
      "attempt h tag c u out p =
         p\<lparr>at := (at p)\<lparr>requests := requests (at p) @ [u],
                      console := console (at p) @ [line]\<rparr>,
           fail_n := fail_n p + 1\<rparr>"
  | (success) b where "\<not> fileExists (at p) out"
      "attempt h tag c u out p =
         p\<lparr>at := (at p)\<lparr>requests := requests (at p) @ [u],
                      files := (files (at p))(out \<mapsto> b)\<rparr>,
           ok_n := ok_n p + 1\<rparr>"
proof (cases "fileExists (at p) out")
  case True
  then show ?thesis using skip attempt_skip by blast
next
  case False
  show ?thesis
  proof (cases "fst (download h (at p) u out)")
    case (Inl e)
    from attempt_failure [OF False Inl] failure False show ?thesis by blast
  next
    case (Inr x)
    from attempt_success [OF False Inr] success False show ?thesis by blast
  qed
qed

lemma advances_refl: "advances T p p"
  unfolding advances_def by (simp add: new_requests_def)

lemma attempt_advances:
  assumes "(u, out) \<in> T"
  shows "advances T p (attempt h tag c u out p)"
proof (cases rule: attempt_cases [of p out h tag c u])
  case skip
  then show ?thesis by (simp add: advances_refl)
next
  case (failure line)
  have "\<exists>new warns.
      requests (at p) @ [u] = requests (at p) @ new \<and>
      console (at p) @ [line] = console (at p) @ warns \<and>
      length new = 1 \<and> length warns = 1 \<and>
      (\<forall>v \<in> set new. \<exists>out. (v, out) \<in> T \<and> out \<notin> dom (files (at p)))"
    using assms failure(1) by (intro exI [of _ "[u]"] exI [of _ "[line]"]) (auto simp: fileExists_def)
  then show ?thesis
    unfolding advances_def failure(2) by (auto simp: new_requests_def)
next
  case (success b)
  have "\<exists>new warns.
      requests (at p) @ [u] = requests (at p) @ new \<and>
      console (at p) = console (at p) @ warns \<and>
      length new = 1 \<and> length warns = 0 \<and>
      (\<forall>v \<in> set new. \<exists>out. (v, out) \<in> T \<and> out \<notin> dom (files (at p)))"
    using assms success(1) by (intro exI [of _ "[u]"] exI [of _ "[]"]) (auto simp: fileExists_def)
  moreover have "\<forall>q \<in> dom (files (at p)). ((files (at p))(out \<mapsto> b)) q = files (at p) q"
    using success(1) by (auto simp: fileExists_def)
  moreover have "\<forall>q \<in> dom ((files (at p))(out \<mapsto> b)).
      q \<in> dom (files (at p)) \<or> (\<exists>v. (v, q) \<in> T \<and> v \<in> set [u])"
    using assms by auto
  ultimately show ?thesis
    unfolding advances_def success(2) by (auto simp: new_requests_def)
qed

lemma attempt_requested:
  "out \<in> dom (files (at p)) \<or> u \<in> set (new_requests (at p) (at (attempt h tag c u out p)))"
  by (cases rule: attempt_cases [of p out h tag c u])
    (auto simp: new_requests_def fileExists_def)

lemma attempt_length:
  "length (requests (at (attempt h tag c u out p))) \<le> length (requests (at p)) + 1"
  by (cases rule: attempt_cases [of p out h tag c u]) auto


subsection \<open>The loop\<close>

lemma advances_trans:
  assumes "advances T p p1" and "advances T p1 p2"
  shows "advances T p p2"
proof -
  from assms(1) obtain new1 warns1 where
    r1: "requests (at p1) = requests (at p) @ new1"
    and c1: "console (at p1) = console (at p) @ warns1"
    and n1: "ok_n p1 + fail_n p1 = ok_n p + fail_n p + length new1"
    and f1: "fail_n p1 = fail_n p + length warns1"
    and t1: "\<forall>u \<in> set new1. \<exists>out. (u, out) \<in> T \<and> out \<notin> dom (files (at p))"
    and k1: "\<forall>q \<in> dom (files (at p)). files (at p1) q = files (at p) q"
    and w1: "\<forall>q \<in> dom (files (at p1)).
               q \<in> dom (files (at p)) \<or> (\<exists>u. (u, q) \<in> T \<and> u \<in> set (new_requests (at p) (at p1)))"
    unfolding advances_def by blast
  from assms(2) obtain new2 warns2 where
    r2: "requests (at p2) = requests (at p1) @ new2"
    and c2: "console (at p2) = console (at p1) @ warns2"
    and n2: "ok_n p2 + fail_n p2 = ok_n p1 + fail_n p1 + length new2"
    and f2: "fail_n p2 = fail_n p1 + length warns2"
    and t2: "\<forall>u \<in> set new2. \<exists>out. (u, out) \<in> T \<and> out \<notin> dom (files (at p1))"
    and k2: "\<forall>q \<in> dom (files (at p1)). files (at p2) q = files (at p1) q"
    and w2: "\<forall>q \<in> dom (files (at p2)).
               q \<in> dom (files (at p1)) \<or> (\<exists>u. (u, q) \<in> T \<and> u \<in> set (new_requests (at p1) (at p2)))"
    unfolding advances_def by blast
  have sub: "dom (files (at p)) \<subseteq> dom (files (at p1))"
    using k1 by (auto simp: dom_def)
  have nr1: "new_requests (at p) (at p1) = new1"
    using r1 by (rule new_requests_append)
  have nr2: "new_requests (at p1) (at p2) = new2"
    using r2 by (rule new_requests_append)
  have nr: "new_requests (at p) (at p2) = new1 @ new2"
    using r1 r2 by (simp add: new_requests_def)
  have a: "requests (at p2) = requests (at p) @ (new1 @ new2)"
    using r1 r2 by simp
  have b: "console (at p2) = console (at p) @ (warns1 @ warns2)"
    using c1 c2 by simp
  have c: "ok_n p2 + fail_n p2 = ok_n p + fail_n p + length (new1 @ new2)"
    using n1 n2 by simp
  have d: "fail_n p2 = fail_n p + length (warns1 @ warns2)"
    using f1 f2 by simp
  have e: "\<forall>u \<in> set (new1 @ new2). \<exists>out. (u, out) \<in> T \<and> out \<notin> dom (files (at p))"
    using t1 t2 sub by auto blast
  have f: "\<forall>q \<in> dom (files (at p)). files (at p2) q = files (at p) q"
    using k1 k2 sub by (metis subsetD)
  have g: "\<forall>q \<in> dom (files (at p2)).
      q \<in> dom (files (at p)) \<or> (\<exists>u. (u, q) \<in> T \<and> u \<in> set (new_requests (at p) (at p2)))"
  proof
    fix q assume "q \<in> dom (files (at p2))"
    with w2 nr2 consider "q \<in> dom (files (at p1))" | "\<exists>u. (u, q) \<in> T \<and> u \<in> set new2"
      by auto
    then show "q \<in> dom (files (at p)) \<or> (\<exists>u. (u, q) \<in> T \<and> u \<in> set (new_requests (at p) (at p2)))"
    proof cases
      case 1
      with w1 nr1 nr show ?thesis by auto
    next
      case 2
      with nr show ?thesis by auto
    qed
  qed
  show ?thesis
    unfolding advances_def using a b c d e f g by blast
qed

lemma advances_mono: "T \<subseteq> T' \<Longrightarrow> advances T p p' \<Longrightarrow> advances T' p p'"
  unfolding advances_def by (elim conjE exE) (intro conjI exI, assumption+, blast, blast, blast)

lemma targets_mono: "set xs \<subseteq> set ys \<Longrightarrow> targets s g xs \<subseteq> targets s g ys"
  by (auto simp: targets_def)

lemma flag_iter_advances:
  assumes "c \<in> set list"
  shows "advances (targets s g list) p (flag_iter h s g p c)"
proof -
  let ?T = "targets s g list"
  let ?p1 = "if s then attempt h ''SVG'' c (svgUrl c) (svg_out c) p else p"
  have one: "advances ?T p ?p1"
    using assms by (auto simp: targets_def intro!: attempt_advances advances_refl)
  have two: "advances ?T ?p1 (if g then attempt h ''PNG'' c (pngUrl c 512 ''flat'') (png_out c) ?p1 else ?p1)"
    using assms by (auto simp: targets_def intro!: attempt_advances advances_refl)
  from advances_trans [OF one two] show ?thesis
    by (simp add: flag_iter_def Let_def)
qed

lemma flags_loop_Cons:
  "flags_loop h s g (c # cs) p = flags_loop h s g cs (flag_iter h s g p c)"
  by (simp add: flags_loop_def)

lemma flags_loop_sub_advances:
  "set xs \<subseteq> set list \<Longrightarrow> advances (targets s g list) p (flags_loop h s g xs p)"
proof (induction xs arbitrary: p)
  case Nil
  then show ?case by (simp add: flags_loop_def advances_refl)
next
  case (Cons c cs)
  then have "advances (targets s g list) p (flag_iter h s g p c)"
    by (simp add: flag_iter_advances)
  moreover have "advances (targets s g list) (flag_iter h s g p c)
      (flags_loop h s g cs (flag_iter h s g p c))"
    using Cons by simp
  ultimately show ?case
    unfolding flags_loop_Cons by (rule advances_trans)
qed

lemma flags_loop_advances: "advances (targets s g list) p (flags_loop h s g list p)"
  by (simp add: flags_loop_sub_advances)


lemma advances_requests:
  "advances T p p' \<Longrightarrow> requests (at p') = requests (at p) @ new_requests (at p) (at p')"
  unfolding advances_def by (auto simp: new_requests_def)

lemma new_requests_trans:
  assumes "advances T p p1" and "advances T' p1 p2"
  shows "new_requests (at p) (at p2) = new_requests (at p) (at p1) @ new_requests (at p1) (at p2)"
  using advances_requests [OF assms(1)] advances_requests [OF assms(2)]
  by (metis append.assoc new_requests_append)

lemma advances_new_file:
  "advances T p p' \<Longrightarrow> q \<in> dom (files (at p')) \<Longrightarrow> q \<notin> dom (files (at p)) \<Longrightarrow>
     \<exists>u. (u, q) \<in> T \<and> u \<in> set (new_requests (at p) (at p'))"
  unfolding advances_def by blast

lemma flag_iter_requested:
  assumes "(u, out) \<in> targets s g [c]"
  shows "out \<in> dom (files (at p)) \<or> u \<in> set (new_requests (at p) (at (flag_iter h s g p c)))"
proof -
  let ?T1 = "{(svgUrl c, svg_out c)}"
  let ?T2 = "{(pngUrl c 512 ''flat'', png_out c)}"
  let ?p1 = "if s then attempt h ''SVG'' c (svgUrl c) (svg_out c) p else p"
  let ?p2 = "if g then attempt h ''PNG'' c (pngUrl c 512 ''flat'') (png_out c) ?p1 else ?p1"
  have fin: "flag_iter h s g p c = ?p2"
    by (simp add: flag_iter_def Let_def)
  have one: "advances ?T1 p ?p1"
    by (simp add: attempt_advances advances_refl)
  have two: "advances ?T2 ?p1 ?p2"
    by (simp add: attempt_advances advances_refl)
  have split: "new_requests (at p) (at ?p2) =
      new_requests (at p) (at ?p1) @ new_requests (at ?p1) (at ?p2)"
    using one two by (rule new_requests_trans)
  from assms consider (svg) "s" "u = svgUrl c" "out = svg_out c"
    | (png) "g" "u = pngUrl c 512 ''flat''" "out = png_out c"
    by (auto simp: targets_def)
  then show ?thesis
  proof cases
    case svg
    then have "out \<in> dom (files (at p)) \<or> u \<in> set (new_requests (at p) (at ?p1))"
      using attempt_requested [of "svg_out c" p "svgUrl c" h "''SVG''" c] by simp
    with split show ?thesis unfolding fin by auto
  next
    case png
    then have req: "out \<in> dom (files (at ?p1)) \<or> u \<in> set (new_requests (at ?p1) (at ?p2))"
      using attempt_requested [of "png_out c" ?p1 "pngUrl c 512 ''flat''" h "''PNG''" c] by simp
    have "out \<in> dom (files (at ?p1)) \<Longrightarrow> out \<in> dom (files (at p))"
      using advances_new_file [OF one, of out] png(3) svg_out_neq_png_out [of c c] by auto
    with req split show ?thesis unfolding fin by auto
  qed
qed

lemma targets_Cons: "targets s g (c # cs) = targets s g [c] \<union> targets s g cs"
  by (auto simp: targets_def)

lemma flags_loop_requested:
  assumes "set xs \<subseteq> set list" and "(u, out) \<in> targets s g xs"
  shows "out \<in> dom (files (at p)) \<or>
         (\<exists>v. (v, out) \<in> targets s g list \<and>
              v \<in> set (new_requests (at p) (at (flags_loop h s g xs p))))"
  using assms
proof (induction xs arbitrary: p)
  case Nil
  then show ?case by (simp add: targets_def)
next
  case (Cons c cs)
  let ?T = "targets s g list"
  let ?p1 = "flag_iter h s g p c"
  let ?pe = "flags_loop h s g cs ?p1"
  from Cons.prems(1) have c_in: "c \<in> set list" and cs_sub: "set cs \<subseteq> set list"
    by simp_all
  have one: "advances ?T p ?p1"
    using c_in by (rule flag_iter_advances)
  have rest: "advances ?T ?p1 ?pe"
    using cs_sub by (rule flags_loop_sub_advances)
  have split: "new_requests (at p) (at ?pe) =
      new_requests (at p) (at ?p1) @ new_requests (at ?p1) (at ?pe)"
    using one rest by (rule new_requests_trans)
  from Cons.prems(2) consider (head) "(u, out) \<in> targets s g [c]" | (tail) "(u, out) \<in> targets s g cs"
    unfolding targets_Cons [of s g c cs] by blast
  then have "out \<in> dom (files (at p)) \<or>
      (\<exists>v. (v, out) \<in> ?T \<and> v \<in> set (new_requests (at p) (at ?pe)))"
  proof cases
    case head
    then have "(u, out) \<in> ?T"
      using targets_mono [of "[c]" list s g] c_in by auto
    with flag_iter_requested [OF head, of p h] split show ?thesis
      by auto
  next
    case tail
    from Cons.IH [OF cs_sub tail, of ?p1]
    consider "out \<in> dom (files (at ?p1))"
      | "\<exists>v. (v, out) \<in> ?T \<and> v \<in> set (new_requests (at ?p1) (at ?pe))"
      by blast
    then show ?thesis
    proof cases
      case 1
      with advances_new_file [OF one, of out] split show ?thesis by auto
    next
      case 2
      with split show ?thesis by auto
    qed
  qed
  then show ?case unfolding flags_loop_Cons .
qed

lemma flag_iter_length:
  "length (requests (at (flag_iter h s g p c))) \<le>
     length (requests (at p)) + (of_bool s + of_bool g)"
proof -
  let ?p1 = "if s then attempt h ''SVG'' c (svgUrl c) (svg_out c) p else p"
  have "length (requests (at ?p1)) \<le> length (requests (at p)) + of_bool s"
    using attempt_length [of h "''SVG''" c "svgUrl c" "svg_out c" p] by simp
  moreover have "length (requests (at (if g then attempt h ''PNG'' c (pngUrl c 512 ''flat'') (png_out c) ?p1 else ?p1)))
      \<le> length (requests (at ?p1)) + of_bool g"
    using attempt_length [of h "''PNG''" c "pngUrl c 512 ''flat''" "png_out c" ?p1] by simp
  ultimately show ?thesis
    by (simp add: flag_iter_def Let_def)
qed

lemma flags_loop_length:
  "length (requests (at (flags_loop h s g xs p))) \<le>
     length (requests (at p)) + (of_bool s + of_bool g) * length xs"
proof (induction xs arbitrary: p)
  case Nil
  then show ?case by (simp add: flags_loop_def)
next
  case (Cons c cs)
  have "length (requests (at (flags_loop h s g cs (flag_iter h s g p c)))) \<le>
      length (requests (at (flag_iter h s g p c))) + (of_bool s + of_bool g) * length cs"
    by (rule Cons.IH)
  with flag_iter_length [of h s g p c] show ?case
    unfolding flags_loop_Cons by simp
qed

subsection \<open>A whole run of \<^verbatim>\<open>downloadFlags\<close>\<close>

lemma pngUrl_neq_svgUrl: "pngUrl b 512 ''flat'' \<noteq> svgUrl a"
  using svgUrl_neq_pngUrl [of a b] by simp

lemma png_out_neq_svg_out: "png_out b \<noteq> svg_out a"
  using svg_out_neq_png_out [of a b] by simp

lemma targets_svgUrl: "(svgUrl c, out) \<in> targets s g list \<Longrightarrow> s \<and> out = svg_out c"
  by (auto simp: targets_def svgUrl_eq_iff svgUrl_neq_pngUrl)

lemma targets_pngUrl:
  "(pngUrl c 512 ''flat'', out) \<in> targets s g list \<Longrightarrow> g \<and> c \<in> set list \<and> out = png_out c"
  by (auto simp: targets_def pngUrl_eq_iff pngUrl_neq_svgUrl)

lemma targets_svg_out: "(u, svg_out c) \<in> targets s g list \<Longrightarrow> s \<and> u = svgUrl c"
  by (auto simp: targets_def svgUrl_eq_iff svg_out_neq_png_out)

lemma targets_png_out:
  "(u, png_out c) \<in> targets s g list \<Longrightarrow>
     g \<and> (\<exists>c' \<in> set list. toLowerCase c' = toLowerCase c \<and> u = pngUrl c' 512 ''flat'')"
  by (auto simp: targets_def png_out_eq_iff png_out_neq_svg_out)

lemma targets_urls:
  "(u, out) \<in> targets s g list \<Longrightarrow>
     (\<exists>c \<in> set list. s \<and> u = svgUrl c \<and> out = svg_out c) \<or>
     (\<exists>c \<in> set list. g \<and> u = pngUrl c 512 ''flat'' \<and> out = png_out c)"
  by (auto simp: targets_def)

lemma flags_run_advances:
  "advances (targets (svg os \<or> both os) (png os \<or> both os) (capped (limit os) codes))
     \<lparr>at = w, ok_n = 0, fail_n = 0\<rparr> (flags_run h codes os w)"
  unfolding flags_run_def by (rule flags_loop_advances)

lemma downloadFlags_files: "files (downloadFlags h codes os w) = files (at (flags_run h codes os w))"
  by (simp add: downloadFlags_def Let_def console_log_def)

lemma downloadFlags_requests:
  "requests (downloadFlags h codes os w) = requests (at (flags_run h codes os w))"
  by (simp add: downloadFlags_def Let_def console_log_def)

lemma downloadFlags_new_requests:
  "new_requests w (downloadFlags h codes os w) = new_requests w (at (flags_run h codes os w))"
  by (simp add: new_requests_def downloadFlags_requests)

text \<open>The facts of a run, read off \<open>advances\<close>.\<close>

lemma flags_run_facts:
  fixes h codes os w
  defines "p \<equiv> flags_run h codes os w"
    and "T \<equiv> targets (svg os \<or> both os) (png os \<or> both os) (capped (limit os) codes)"
  shows "requests (at p) = requests w @ new_requests w (at p)"
    and "ok_n p + fail_n p = length (new_requests w (at p))"
    and "\<exists>warns. console (at p) = console w @ warns \<and> length warns = fail_n p"
    and "\<forall>u \<in> set (new_requests w (at p)). \<exists>out. (u, out) \<in> T \<and> out \<notin> dom (files w)"
    and "\<forall>q \<in> dom (files w). files (at p) q = files w q"
    and "\<forall>q \<in> dom (files (at p)).
           q \<in> dom (files w) \<or> (\<exists>u. (u, q) \<in> T \<and> u \<in> set (new_requests w (at p)))"
proof -
  have adv: "advances T \<lparr>at = w, ok_n = 0, fail_n = 0\<rparr> p"
    unfolding p_def T_def by (rule flags_run_advances)
  then obtain new warns where
    r: "requests (at p) = requests w @ new"
    and c: "console (at p) = console w @ warns"
    and n: "ok_n p + fail_n p = length new"
    and f: "fail_n p = length warns"
    and t: "\<forall>u \<in> set new. \<exists>out. (u, out) \<in> T \<and> out \<notin> dom (files w)"
    unfolding advances_def by auto
  have nr: "new_requests w (at p) = new"
    using r by (rule new_requests_append)
  show "requests (at p) = requests w @ new_requests w (at p)"
    using r nr by simp
  show "ok_n p + fail_n p = length (new_requests w (at p))"
    using n nr by simp
  show "\<exists>warns. console (at p) = console w @ warns \<and> length warns = fail_n p"
    using c f by auto
  show "\<forall>u \<in> set (new_requests w (at p)). \<exists>out. (u, out) \<in> T \<and> out \<notin> dom (files w)"
    using t nr by simp
  show "\<forall>q \<in> dom (files w). files (at p) q = files w q"
    using adv unfolding advances_def by simp
  show "\<forall>q \<in> dom (files (at p)).
           q \<in> dom (files w) \<or> (\<exists>u. (u, q) \<in> T \<and> u \<in> set (new_requests w (at p)))"
    using adv unfolding advances_def by simp
qed

lemma flags_run_length:
  "length (new_requests w (at (flags_run h codes os w))) \<le>
     (of_bool (svg os \<or> both os) + of_bool (png os \<or> both os)) * length (capped (limit os) codes)"
  using flags_loop_length [of h "svg os \<or> both os" "png os \<or> both os" "capped (limit os) codes"
      "\<lparr>at = w, ok_n = 0, fail_n = 0\<rparr>"]
  by (simp add: flags_run_def new_requests_def)

lemma flags_run_svg_requested:
  assumes "c \<in> set (capped (limit os) codes)" and "svg os \<or> both os"
  shows "fileExists w (svg_out c) \<or> svgUrl c \<in> set (new_requests w (at (flags_run h codes os w)))"
proof -
  let ?list = "capped (limit os) codes"
  have "(svgUrl c, svg_out c) \<in> targets (svg os \<or> both os) (png os \<or> both os) ?list"
    using assms by (auto simp: targets_def)
  from flags_loop_requested [OF subset_refl this, of "\<lparr>at = w, ok_n = 0, fail_n = 0\<rparr>" h]
  show ?thesis
    using targets_svg_out by (fastforce simp: fileExists_def flags_run_def)
qed

lemma flags_run_png_requested:
  assumes "c \<in> set (capped (limit os) codes)" and "png os \<or> both os"
  shows "fileExists w (png_out c) \<or>
    (\<exists>c' \<in> set (capped (limit os) codes). toLowerCase c' = toLowerCase c \<and>
        pngUrl c' 512 ''flat'' \<in> set (new_requests w (at (flags_run h codes os w))))"
proof -
  let ?list = "capped (limit os) codes"
  have "(pngUrl c 512 ''flat'', png_out c) \<in> targets (svg os \<or> both os) (png os \<or> both os) ?list"
    using assms by (auto simp: targets_def)
  from flags_loop_requested [OF subset_refl this, of "\<lparr>at = w, ok_n = 0, fail_n = 0\<rparr>" h]
  show ?thesis
    using targets_png_out by (fastforce simp: fileExists_def flags_run_def)
qed

lemma attempt_new_requests:
  "new_requests (at p) (at (attempt h tag c u out p)) = (if fileExists (at p) out then [] else [u])"
  by (cases rule: attempt_cases [of p out h tag c u]) (simp_all add: new_requests_def)

lemma flag_iter_new_requests:
  "\<exists>a b. new_requests (at p) (at (flag_iter h s g p c)) = a @ b
     \<and> (a = [] \<or> a = [svgUrl c]) \<and> (b = [] \<or> b = [pngUrl c 512 ''flat''])"
proof -
  let ?p1 = "if s then attempt h ''SVG'' c (svgUrl c) (svg_out c) p else p"
  let ?p2 = "if g then attempt h ''PNG'' c (pngUrl c 512 ''flat'') (png_out c) ?p1 else ?p1"
  have one: "advances {(svgUrl c, svg_out c)} p ?p1"
    by (simp add: attempt_advances advances_refl)
  have two: "advances {(pngUrl c 512 ''flat'', png_out c)} ?p1 ?p2"
    by (simp add: attempt_advances advances_refl)
  have same: "new_requests w w = []" for w
    by (simp add: new_requests_def)
  have a: "new_requests (at p) (at ?p1) = [] \<or> new_requests (at p) (at ?p1) = [svgUrl c]"
    by (simp add: attempt_new_requests same)
  have b: "new_requests (at ?p1) (at ?p2) = [] \<or>
      new_requests (at ?p1) (at ?p2) = [pngUrl c 512 ''flat'']"
    by (simp add: attempt_new_requests same)
  have "new_requests (at p) (at ?p2) = new_requests (at p) (at ?p1) @ new_requests (at ?p1) (at ?p2)"
    using one two by (rule new_requests_trans)
  with a b show ?thesis
    unfolding flag_iter_def Let_def by blast
qed

lemma flags_loop_distinct:
  assumes "distinct (map toLowerCase xs)"
  shows "distinct (new_requests (at p) (at (flags_loop h s g xs p)))"
  using assms
proof (induction xs arbitrary: p)
  case Nil
  show ?case by (simp add: flags_loop_def new_requests_def)
next
  case (Cons c cs)
  let ?p1 = "flag_iter h s g p c"
  let ?pe = "flags_loop h s g cs ?p1"
  from Cons.prems have fresh: "toLowerCase c \<notin> toLowerCase ` set cs"
    and rest: "distinct (map toLowerCase cs)"
    by simp_all
  have one: "advances (targets s g [c]) p ?p1"
    by (rule flag_iter_advances) simp
  have more: "advances (targets s g cs) ?p1 ?pe"
    by (rule flags_loop_advances)
  have split: "new_requests (at p) (at ?pe) =
      new_requests (at p) (at ?p1) @ new_requests (at ?p1) (at ?pe)"
    using one more by (rule new_requests_trans)
  obtain a b where head: "new_requests (at p) (at ?p1) = a @ b"
    and a: "a = [] \<or> a = [svgUrl c]" and b: "b = [] \<or> b = [pngUrl c 512 ''flat'']"
    using flag_iter_new_requests [of p h s g c] by blast
  have d_head: "distinct (a @ b)"
    using a b svgUrl_neq_pngUrl [of c c] by auto
  have d_tail: "distinct (new_requests (at ?p1) (at ?pe))"
    using rest by (rule Cons.IH)
  have tail_urls: "\<forall>u \<in> set (new_requests (at ?p1) (at ?pe)).
      \<exists>d \<in> set cs. u = svgUrl d \<or> u = pngUrl d 512 ''flat''"
  proof
    fix u assume "u \<in> set (new_requests (at ?p1) (at ?pe))"
    with more obtain out where "(u, out) \<in> targets s g cs"
      unfolding advances_def by (metis new_requests_append)
    from targets_urls [OF this] show "\<exists>d \<in> set cs. u = svgUrl d \<or> u = pngUrl d 512 ''flat''"
      by blast
  qed
  have apart: "set (a @ b) \<inter> set (new_requests (at ?p1) (at ?pe)) = {}"
  proof (rule ccontr)
    assume "set (a @ b) \<inter> set (new_requests (at ?p1) (at ?pe)) \<noteq> {}"
    then obtain u where u: "u \<in> set (a @ b)" and "u \<in> set (new_requests (at ?p1) (at ?pe))"
      by blast
    with tail_urls obtain d where d: "d \<in> set cs" and ud: "u = svgUrl d \<or> u = pngUrl d 512 ''flat''"
      by blast
    from u a b have uc: "u = svgUrl c \<or> u = pngUrl c 512 ''flat''"
      by auto
    from uc ud have "toLowerCase c = toLowerCase d"
      using svgUrl_neq_pngUrl pngUrl_neq_svgUrl
      by (auto simp: svgUrl_eq_iff svg_out_text pngUrl_eq_iff)
    with d fresh show False by blast
  qed
  from d_head d_tail apart have "distinct ((a @ b) @ new_requests (at ?p1) (at ?pe))"
    by (simp only: distinct_append simp_thms)
  then show ?case
    unfolding flags_loop_Cons split head .
qed

lemma flags_run_distinct:
  "distinct (map toLowerCase (capped (limit os) codes)) \<Longrightarrow>
     distinct (new_requests w (at (flags_run h codes os w)))"
  using flags_loop_distinct [of "capped (limit os) codes" "\<lparr>at = w, ok_n = 0, fail_n = 0\<rparr>"]
  by (simp add: flags_run_def)

lemma download_resolved:
  assumes "fetch_at h (length (requests w)) u = Resolved res"
  shows "download h w u destPath =
    (if \<not> ok res \<and> rtype res \<noteq> Opaque
     then (Inl (DownloadFailed u (status res)), w\<lparr>requests := requests w @ [u]\<rparr>)
     else case body res of
            ReadRejected m \<Rightarrow> (Inl (BodyRejected m), w\<lparr>requests := requests w @ [u]\<rparr>)
          | ReadBytes buf \<Rightarrow>
              (case write_error h destPath of
                 Some m \<Rightarrow> (Inl (WriteRejected m), w\<lparr>requests := requests w @ [u]\<rparr>)
               | None \<Rightarrow>
                   (Inr (), w\<lparr>requests := requests w @ [u],
                              files := (files w)(destPath \<mapsto> buf)\<rparr>)))"
  using assms
  by (simp add: download_def fetch_def writeFile_def split: read_result.splits option.splits)

text \<open>Without a response there is nothing to test: a rejected \<^verbatim>\<open>fetch\<close> is thrown on.\<close>

lemma download_rejected:
  assumes "fetch_at h (length (requests w)) u = Rejected m"
  shows "download h w u destPath = (Inl (FetchRejected m), w\<lparr>requests := requests w @ [u]\<rparr>)"
  using assms by (simp add: download_def fetch_def)

lemma sample_fetch_opaque:
  "fetch_at sample_host (length (requests empty_world)) (pngUrl ''US'' 512 ''flat'') =
     Resolved \<lparr>ok = False, status = 0, rtype = Opaque, body = ReadBytes ''PNG'', json_data = None\<rparr>"
  by (simp add: sample_host_def sample_fetch_def pngUrl_neq_list pngUrl_neq_svgUrl)

lemma sample_write_allowed: "write_error sample_host q = None"
  by (simp add: sample_host_def)

text \<open>
  C5, as the claim states it, fails: \<^verbatim>\<open>download\<close> throws on a response that is ok when
  \<^verbatim>\<open>res.arrayBuffer()\<close> rejects and when \<^verbatim>\<open>writeFile\<close> rejects, and it throws when \<^verbatim>\<open>fetch\<close>
  rejects and there is no response at all.
\<close>

theorem download_throws_on_ok_response:
  "fetch_at broken_host (length (requests empty_world)) (svgUrl ''BB'') =
     Resolved \<lparr>ok = True, status = 200, rtype = Basic, body = ReadRejected ''terminated'',
       json_data = None\<rparr>
   \<and> fst (download broken_host empty_world (svgUrl ''BB'') (svg_out ''BB'')) =
       Inl (BodyRejected ''terminated'')
   \<and> fetch_at broken_host (length (requests empty_world)) (svgUrl ''CC'') =
       Resolved \<lparr>ok = True, status = 200, rtype = Basic, body = ReadBytes ''<svg/>'',
         json_data = None\<rparr>
   \<and> fst (download broken_host empty_world (svgUrl ''CC'') (svg_out ''CC'')) =
       Inl (WriteRejected ''EACCES: permission denied'')
   \<and> fetch_at broken_host (length (requests empty_world)) (svgUrl ''AA'') =
       Rejected ''fetch failed''
   \<and> fst (download broken_host empty_world (svgUrl ''AA'') (svg_out ''AA'')) =
       Inl (FetchRejected ''fetch failed'')"
  by code_simp

text \<open>
  C5, amended. \<^verbatim>\<open>download\<close> throws exactly when \<^verbatim>\<open>fetch\<close> rejects, or the response is
  neither ok nor opaque, or \<^verbatim>\<open>res.arrayBuffer()\<close> rejects, or \<^verbatim>\<open>writeFile\<close> rejects. On a
  response that is neither ok nor opaque it throws the error of line 78 and writes
  nothing. An ok response and an opaque response both have their body written to
  \<^verbatim>\<open>destPath\<close>, when the body can be read and the file written.
\<close>

theorem download_throws_iff_not_ok_nor_opaque:
  "(isl (fst (download h w u destPath)) \<longleftrightarrow>
      (\<exists>m. fetch_at h (length (requests w)) u = Rejected m)
    \<or> (\<exists>res. fetch_at h (length (requests w)) u = Resolved res \<and>
          (\<not> ok res \<and> rtype res \<noteq> Opaque
           \<or> (\<exists>m. body res = ReadRejected m)
           \<or> (\<exists>m. write_error h destPath = Some m))))
   \<and> (\<forall>res. fetch_at h (length (requests w)) u = Resolved res
          \<and> \<not> ok res \<and> rtype res \<noteq> Opaque \<longrightarrow>
        download h w u destPath =
          (Inl (DownloadFailed u (status res)), w\<lparr>requests := requests w @ [u]\<rparr>))
   \<and> (\<forall>res buf. fetch_at h (length (requests w)) u = Resolved res
          \<and> (ok res \<or> rtype res = Opaque)
          \<and> body res = ReadBytes buf \<and> write_error h destPath = None \<longrightarrow>
        download h w u destPath =
          (Inr (), w\<lparr>requests := requests w @ [u],
                     files := (files w)(destPath \<mapsto> buf)\<rparr>))"
proof -
  have throws: "isl (fst (download h w u destPath)) \<longleftrightarrow>
      (\<exists>m. fetch_at h (length (requests w)) u = Rejected m)
    \<or> (\<exists>res. fetch_at h (length (requests w)) u = Resolved res \<and>
          (\<not> ok res \<and> rtype res \<noteq> Opaque
           \<or> (\<exists>m. body res = ReadRejected m)
           \<or> (\<exists>m. write_error h destPath = Some m)))"
  proof (cases "fetch_at h (length (requests w)) u")
    case (Rejected m)
    then show ?thesis
      by (simp add: download_rejected)
  next
    case (Resolved res)
    then show ?thesis
      by (simp add: download_resolved split: read_result.splits option.splits)
  qed
  have failed: "\<forall>res. fetch_at h (length (requests w)) u = Resolved res
          \<and> \<not> ok res \<and> rtype res \<noteq> Opaque \<longrightarrow>
        download h w u destPath =
          (Inl (DownloadFailed u (status res)), w\<lparr>requests := requests w @ [u]\<rparr>)"
    by (simp add: download_resolved)
  have written: "\<forall>res buf. fetch_at h (length (requests w)) u = Resolved res
          \<and> (ok res \<or> rtype res = Opaque)
          \<and> body res = ReadBytes buf \<and> write_error h destPath = None \<longrightarrow>
        download h w u destPath =
          (Inr (), w\<lparr>requests := requests w @ [u],
                     files := (files w)(destPath \<mapsto> buf)\<rparr>)"
    by (auto simp: download_resolved)
  from throws failed written show ?thesis
    by (intro conjI)
qed

theorem download_throws_iff_not_ok_nor_opaque_witness:
  "fetch_at sample_host (length (requests empty_world)) (pngUrl ''US'' 512 ''flat'') =
     Resolved \<lparr>ok = False, status = 0, rtype = Opaque, body = ReadBytes ''PNG'', json_data = None\<rparr>
   \<and> write_error sample_host (png_out ''US'') = None
   \<and> \<not> isl (fst (download sample_host empty_world (pngUrl ''US'' 512 ''flat'') (png_out ''US'')))
   \<and> download sample_host empty_world (pngUrl ''US'' 512 ''flat'') (png_out ''US'') =
       (Inr (), empty_world\<lparr>requests := requests empty_world @ [pngUrl ''US'' 512 ''flat''],
                  files := (files empty_world)(png_out ''US'' \<mapsto> ''PNG'')\<rparr>)"
proof -
  note inst = download_throws_iff_not_ok_nor_opaque
    [of sample_host empty_world "pngUrl ''US'' 512 ''flat''" "png_out ''US''"]
  let ?res = "\<lparr>ok = False, status = 0, rtype = Opaque, body = ReadBytes ''PNG'',
    json_data = None\<rparr>"
  from inst have "fetch_at sample_host (length (requests empty_world)) (pngUrl ''US'' 512 ''flat'')
        = Resolved ?res
      \<and> (ok ?res \<or> rtype ?res = Opaque)
      \<and> body ?res = ReadBytes ''PNG'' \<and> write_error sample_host (png_out ''US'') = None \<longrightarrow>
    download sample_host empty_world (pngUrl ''US'' 512 ''flat'') (png_out ''US'') =
       (Inr (), empty_world\<lparr>requests := requests empty_world @ [pngUrl ''US'' 512 ''flat''],
                  files := (files empty_world)(png_out ''US'' \<mapsto> ''PNG'')\<rparr>)"
    by blast
  with sample_fetch_opaque sample_write_allowed [of "png_out ''US''"] show ?thesis
    by simp
qed

lemma fetchCountries_not_ok:
  assumes "fetch_at h (length (requests w)) COUNTRIES_URL = Resolved res" and "\<not> ok res"
  shows "fetchCountries h w =
           (Inl (CountriesFailed (status res)), w\<lparr>requests := requests w @ [COUNTRIES_URL]\<rparr>)"
  using assms by (simp add: fetchCountries_def fetch_def)

lemma main_fetch_failed:
  "fetchCountries h w = (Inl e, w') \<Longrightarrow> main h args w = (Inl e, w')"
  by (simp add: main_def Let_def)

lemma offline_fetch_list:
  "fetch_at offline_host (length (requests empty_world)) COUNTRIES_URL =
     Resolved \<lparr>ok = False, status = 503, rtype = Basic, body = ReadBytes [], json_data = None\<rparr>"
  by (simp add: offline_host_def)

lemma offline_FR_fails:
  "fst (download offline_host empty_world (svgUrl ''FR'') (svg_out ''FR'')) =
     Inl (DownloadFailed (svgUrl ''FR'') 404)"
  by (simp add: download_def fetch_def offline_host_def sample_fetch_def svgUrl_neq_list)

text \<open>
  C6. In a run of \<^verbatim>\<open>downloadFlags\<close> every request is counted once, as a success or as a
  failure, there is at most one request for each code and format, no address is requested
  twice when the codes of the list differ in lower case, every failure has its line on
  the console, and whatever fails, each code of the list has its file on disk beforehand
  or its address requested. A failing download adds one request, one console
  line and one to the failure count, and writes nothing. When the list address answers
  with a response that is not ok, \<^verbatim>\<open>fetchCountries\<close> throws after that one request, and so
  does \<^verbatim>\<open>main\<close>, with no file written.
\<close>

theorem flag_failure_counted_and_run_continues:
  "(let p = flags_run h codes os w;
        list = capped (limit os) codes;
        new = new_requests w (at p)
    in requests (at p) = requests w @ new
     \<and> ok_n p + fail_n p = length new
     \<and> length new \<le> (of_bool (svg os \<or> both os) + of_bool (png os \<or> both os)) * length list
     \<and> (distinct (map toLowerCase list) \<longrightarrow> distinct new)
     \<and> (\<exists>warns. console (at p) = console w @ warns \<and> length warns = fail_n p)
     \<and> (\<forall>c \<in> set list. svg os \<or> both os \<longrightarrow>
           fileExists w (svg_out c) \<or> svgUrl c \<in> set new)
     \<and> (\<forall>c \<in> set list. png os \<or> both os \<longrightarrow>
           fileExists w (png_out c) \<or>
           (\<exists>c' \<in> set list. toLowerCase c' = toLowerCase c \<and> pngUrl c' 512 ''flat'' \<in> set new)))
   \<and> (\<not> fileExists (at q) out \<and> fst (download h (at q) u out) = Inl e \<longrightarrow>
        attempt h tag cd u out q =
          q\<lparr>at := (at q)\<lparr>requests := requests (at q) @ [u],
                       console := console (at q) @ [tag @ '' fail '' @ cd @ '' '' @ message e]\<rparr>,
            fail_n := fail_n q + 1\<rparr>)
   \<and> (fetch_at h (length (requests w)) COUNTRIES_URL = Resolved res \<and> \<not> ok res \<longrightarrow>
        fetchCountries h w =
          (Inl (CountriesFailed (status res)), w\<lparr>requests := requests w @ [COUNTRIES_URL]\<rparr>)
      \<and> main h args w =
          (Inl (CountriesFailed (status res)), w\<lparr>requests := requests w @ [COUNTRIES_URL]\<rparr>))"
proof -
  have run: "let p = flags_run h codes os w;
        list = capped (limit os) codes;
        new = new_requests w (at p)
    in requests (at p) = requests w @ new
     \<and> ok_n p + fail_n p = length new
     \<and> length new \<le> (of_bool (svg os \<or> both os) + of_bool (png os \<or> both os)) * length list
     \<and> (distinct (map toLowerCase list) \<longrightarrow> distinct new)
     \<and> (\<exists>warns. console (at p) = console w @ warns \<and> length warns = fail_n p)
     \<and> (\<forall>c \<in> set list. svg os \<or> both os \<longrightarrow>
           fileExists w (svg_out c) \<or> svgUrl c \<in> set new)
     \<and> (\<forall>c \<in> set list. png os \<or> both os \<longrightarrow>
           fileExists w (png_out c) \<or>
           (\<exists>c' \<in> set list. toLowerCase c' = toLowerCase c \<and> pngUrl c' 512 ''flat'' \<in> set new))"
    unfolding Let_def
    using flags_run_facts(1-3) [of h codes os w] flags_run_length [of w h codes os]
      flags_run_distinct [of os codes w h]
      flags_run_svg_requested [of _ os codes w h] flags_run_png_requested [of _ os codes w h]
    by blast
  have step: "\<not> fileExists (at q) out \<and> fst (download h (at q) u out) = Inl e \<longrightarrow>
        attempt h tag cd u out q =
          q\<lparr>at := (at q)\<lparr>requests := requests (at q) @ [u],
                       console := console (at q) @ [tag @ '' fail '' @ cd @ '' '' @ message e]\<rparr>,
            fail_n := fail_n q + 1\<rparr>"
    using attempt_failure by blast
  have list: "fetch_at h (length (requests w)) COUNTRIES_URL = Resolved res \<and> \<not> ok res \<longrightarrow>
        fetchCountries h w =
          (Inl (CountriesFailed (status res)), w\<lparr>requests := requests w @ [COUNTRIES_URL]\<rparr>)
      \<and> main h args w =
          (Inl (CountriesFailed (status res)), w\<lparr>requests := requests w @ [COUNTRIES_URL]\<rparr>)"
    using fetchCountries_not_ok main_fetch_failed by blast
  from run step list show ?thesis by blast
qed


theorem flag_failure_counted_and_run_continues_witness:
  "\<not> fileExists empty_world (svg_out ''FR'')
   \<and> fst (download offline_host empty_world (svgUrl ''FR'') (svg_out ''FR'')) =
       Inl (DownloadFailed (svgUrl ''FR'') 404)
   \<and> attempt offline_host ''SVG'' ''FR'' (svgUrl ''FR'') (svg_out ''FR'')
         \<lparr>at = empty_world, ok_n = 0, fail_n = 0\<rparr> =
       \<lparr>at = empty_world\<lparr>requests := [svgUrl ''FR''],
              console := [''SVG fail FR '' @ message (DownloadFailed (svgUrl ''FR'') 404)]\<rparr>,
        ok_n = 0, fail_n = 1\<rparr>
   \<and> main offline_host [] empty_world =
       (Inl (CountriesFailed 503), empty_world\<lparr>requests := [COUNTRIES_URL]\<rparr>)
   \<and> (let p = flags_run offline_host [''FR'', ''US''] (parseArgs []) empty_world
      in requests (at p) = [svgUrl ''FR'', svgUrl ''US'']
       \<and> ok_n p = 1 \<and> fail_n p = 1
       \<and> ok_n p + fail_n p = length (new_requests empty_world (at p))
       \<and> distinct (map toLowerCase [''FR'', ''US''])
       \<and> distinct (new_requests empty_world (at p))
       \<and> (\<exists>warns. console (at p) = console empty_world @ warns \<and> length warns = fail_n p)
       \<and> svgUrl ''FR'' \<in> set (new_requests empty_world (at p))
       \<and> svgUrl ''US'' \<in> set (new_requests empty_world (at p)))"
proof -
  let ?p0 = "\<lparr>at = empty_world, ok_n = 0, fail_n = 0\<rparr>"
  let ?res = "\<lparr>ok = False, status = 503, rtype = Basic, body = ReadBytes [], json_data = None\<rparr>"
  have absent: "\<not> fileExists empty_world (svg_out ''FR'')"
    by (simp add: fileExists_def empty_world_def)
  have os: "svg (parseArgs []) \<or> both (parseArgs [])"
    by code_simp
  have list: "capped (limit (parseArgs [])) [''FR'', ''US''] = [''FR'', ''US'']"
    by code_simp
  have reqs: "requests (at (flags_run offline_host [''FR'', ''US''] (parseArgs []) empty_world)) =
      [svgUrl ''FR'', svgUrl ''US'']"
    by code_simp
  have counts: "ok_n (flags_run offline_host [''FR'', ''US''] (parseArgs []) empty_world) = 1"
    "fail_n (flags_run offline_host [''FR'', ''US''] (parseArgs []) empty_world) = 1"
    by code_simp+
  have empty: "requests empty_world = []" "console empty_world = []"
    by (simp_all add: empty_world_def)
  note inst = flag_failure_counted_and_run_continues
    [where h = offline_host and codes = "[''FR'', ''US'']" and os = "parseArgs []"
       and w = empty_world and q = ?p0 and out = "svg_out ''FR''" and u = "svgUrl ''FR''"
       and e = "DownloadFailed (svgUrl ''FR'') 404" and tag = "''SVG''" and cd = "''FR''"
       and res = ?res and args = "[]"]
  have nowhere: "\<not> fileExists empty_world q" for q
    by (simp add: fileExists_def empty_world_def)
  have lower: "distinct (map toLowerCase [''FR'', ''US''])"
    by code_simp
  from inst absent nowhere offline_FR_fails offline_fetch_list os list reqs counts empty lower
  show ?thesis
    by (simp add: Let_def)
qed

lemma set_capped: "set (capped lim codes) \<subseteq> set codes"
  by (auto simp: capped_def dest: in_set_takeD)

lemma lower_of_upper_letters:
  "list_all (\<lambda>a. lower_char a \<in> set lower_letters \<and> upper_char (lower_char a) = a) upper_letters"
  by code_simp

lemma lower_char_AZ:
  "is_AZ a \<Longrightarrow> lower_char a \<in> set lower_letters \<and> upper_char (lower_char a) = a"
  using lower_of_upper_letters unfolding list_all_iff is_AZ_def by blast

lemma lower_letters_below_128: "list_all (\<lambda>a. (of_char a :: nat) < 128) lower_letters"
  by code_simp

lemma lower_letters_ascii: "a \<in> set lower_letters \<Longrightarrow> (of_char a :: nat) < 128"
  using lower_letters_below_128 unfolding list_all_iff by blast

lemma toLowerCase_code:
  assumes "test_AZ2 c"
  shows "length (toLowerCase c) = 2 \<and> set (toLowerCase c) \<subseteq> set lower_letters
       \<and> toUpperCase hh (toLowerCase c) = c"
proof -
  from assms obtain a b where c: "c = [a, b]" and ab: "is_AZ a" "is_AZ b"
    by (auto simp: test_AZ2_def split: list.splits)
  with lower_char_AZ [of a] lower_char_AZ [of b] show ?thesis
    by (simp add: toLowerCase_def toUpperCase_def upper_unit_def lower_letters_ascii)
qed

lemma codes_of_simple: "\<forall>c \<in> set (map code (simple hh data)). test_AZ2 c"
  by (auto simp: set_simple keep_def)

lemma downloadFlags_changed_file:
  assumes "files (downloadFlags h codes os w) q \<noteq> files w q"
  shows "\<exists>c \<in> set (capped (limit os) codes).
           ((svg os \<or> both os) \<and> q = svg_out c \<and>
              svgUrl c \<in> set (new_requests w (downloadFlags h codes os w)))
         \<or> ((png os \<or> both os) \<and> q = png_out c \<and>
              pngUrl c 512 ''flat'' \<in> set (new_requests w (downloadFlags h codes os w)))"
proof -
  let ?p = "flags_run h codes os w"
  let ?T = "targets (svg os \<or> both os) (png os \<or> both os) (capped (limit os) codes)"
  from assms have changed: "files (at ?p) q \<noteq> files w q"
    by (simp add: downloadFlags_files)
  with flags_run_facts(5) [of w h codes os] have fresh: "q \<notin> dom (files w)"
    by blast
  with changed have "q \<in> dom (files (at ?p))"
    by (auto simp: dom_def)
  with flags_run_facts(6) [of h codes os w] fresh
  obtain u where "(u, q) \<in> ?T" and "u \<in> set (new_requests w (at ?p))"
    by blast
  with targets_urls [of u q] show ?thesis
    unfolding downloadFlags_new_requests by blast
qed

text \<open>
  C7. The vector address of a code is \<^verbatim>\<open>https://flagcdn.com/\<close>, the code in lower case and
  \<^verbatim>\<open>.svg\<close>; the raster address is \<^verbatim>\<open>https://flagsapi.com/\<close>, the code as it is and
  \<^verbatim>\<open>/flat/512.png\<close>. The codes that \<^verbatim>\<open>main\<close> passes on are two letters A-Z, and in lower
  case such a code is two letters a-z. Every file that \<^verbatim>\<open>downloadFlags\<close> writes or changes
  is \<^verbatim>\<open>assets/flags/\<close>, the lower-case code of a member of the list and \<^verbatim>\<open>.svg\<close> when the
  vector address of that code was requested, \<^verbatim>\<open>.png\<close> when its raster address was.
\<close>

theorem flag_addresses_and_file_names:
  "svgUrl c = ''https://flagcdn.com/'' @ toLowerCase c @ ''.svg''
   \<and> pngUrl c 512 ''flat'' = ''https://flagsapi.com/'' @ c @ ''/flat/512.png''
   \<and> (\<forall>c \<in> set (map code (simple hh data)). test_AZ2 c)
   \<and> (test_AZ2 c \<longrightarrow>
        length (toLowerCase c) = 2 \<and> set (toLowerCase c) \<subseteq> set lower_letters
        \<and> toUpperCase hh (toLowerCase c) = c)
   \<and> (\<forall>q. files (downloadFlags h codes os w) q \<noteq> files w q \<longrightarrow>
        (\<exists>c \<in> set codes.
            ((svg os \<or> both os) \<and> q = ''assets/flags/'' @ toLowerCase c @ ''.svg'' \<and>
               svgUrl c \<in> set (new_requests w (downloadFlags h codes os w)))
          \<or> ((png os \<or> both os) \<and> q = ''assets/flags/'' @ toLowerCase c @ ''.png'' \<and>
               pngUrl c 512 ''flat'' \<in> set (new_requests w (downloadFlags h codes os w)))))"
proof -
  have written: "\<forall>q. files (downloadFlags h codes os w) q \<noteq> files w q \<longrightarrow>
        (\<exists>c \<in> set codes.
            ((svg os \<or> both os) \<and> q = ''assets/flags/'' @ toLowerCase c @ ''.svg'' \<and>
               svgUrl c \<in> set (new_requests w (downloadFlags h codes os w)))
          \<or> ((png os \<or> both os) \<and> q = ''assets/flags/'' @ toLowerCase c @ ''.png'' \<and>
               pngUrl c 512 ''flat'' \<in> set (new_requests w (downloadFlags h codes os w))))"
  proof (intro allI impI)
    fix q assume "files (downloadFlags h codes os w) q \<noteq> files w q"
    from downloadFlags_changed_file [OF this] set_capped [of "limit os" codes]
    show "\<exists>c \<in> set codes.
            ((svg os \<or> both os) \<and> q = ''assets/flags/'' @ toLowerCase c @ ''.svg'' \<and>
               svgUrl c \<in> set (new_requests w (downloadFlags h codes os w)))
          \<or> ((png os \<or> both os) \<and> q = ''assets/flags/'' @ toLowerCase c @ ''.png'' \<and>
               pngUrl c 512 ''flat'' \<in> set (new_requests w (downloadFlags h codes os w)))"
      unfolding svg_out_text png_out_text by blast
  qed
  show ?thesis
    using svgUrl_text [of c] pngUrl_text [of c] codes_of_simple [of hh data]
      toLowerCase_code [of c] written
    by blast
qed


theorem flag_addresses_and_file_names_witness:
  "svgUrl ''FR'' = ''https://flagcdn.com/fr.svg''
   \<and> pngUrl ''FR'' 512 ''flat'' = ''https://flagsapi.com/FR/flat/512.png''
   \<and> map code (simple sample_host sample_list) = [''FR'', ''US'']
   \<and> test_AZ2 ''FR'' \<and> toLowerCase ''FR'' = ''fr''
   \<and> files (downloadFlags sample_host [''FR'', ''US''] (parseArgs [''--both'']) empty_world)
         ''assets/flags/us.png'' = Some ''PNG''
   \<and> files empty_world ''assets/flags/us.png'' = None
   \<and> (\<exists>c \<in> set [''FR'', ''US''].
          ''assets/flags/us.png'' = ''assets/flags/'' @ toLowerCase c @ ''.png'' \<and>
          pngUrl c 512 ''flat'' \<in> set (new_requests empty_world
             (downloadFlags sample_host [''FR'', ''US''] (parseArgs [''--both'']) empty_world)))"
proof -
  let ?w = "downloadFlags sample_host [''FR'', ''US''] (parseArgs [''--both'']) empty_world"
  let ?q = "''assets/flags/us.png''"
  have lower: "toLowerCase ''FR'' = ''fr''" "toLowerCase ''US'' = ''us''"
    by code_simp+
  have code: "test_AZ2 ''FR''"
    by code_simp
  have new: "files ?w ?q = Some ''PNG''"
    by code_simp
  have old: "files empty_world ?q = None"
    by (simp add: empty_world_def)
  note inst = flag_addresses_and_file_names
    [where c = "''FR''" and hh = sample_host and data = sample_list and h = sample_host
       and codes = "[''FR'', ''US'']" and os = "parseArgs [''--both'']" and w = empty_world]
  have changed: "files ?w ?q \<noteq> files empty_world ?q"
    using new old by simp
  from inst have "\<forall>q. files ?w q \<noteq> files empty_world q \<longrightarrow>
      (\<exists>c \<in> set [''FR'', ''US''].
          ((svg (parseArgs [''--both'']) \<or> both (parseArgs [''--both''])) \<and>
             q = ''assets/flags/'' @ toLowerCase c @ ''.svg'' \<and>
             svgUrl c \<in> set (new_requests empty_world ?w))
        \<or> ((png (parseArgs [''--both'']) \<or> both (parseArgs [''--both''])) \<and>
             q = ''assets/flags/'' @ toLowerCase c @ ''.png'' \<and>
             pngUrl c 512 ''flat'' \<in> set (new_requests empty_world ?w)))"
    by (elim conjE)
  with changed have "\<exists>c \<in> set [''FR'', ''US''].
      (?q = ''assets/flags/'' @ toLowerCase c @ ''.svg'' \<and> svgUrl c \<in> set (new_requests empty_world ?w))
    \<or> (?q = ''assets/flags/'' @ toLowerCase c @ ''.png'' \<and>
          pngUrl c 512 ''flat'' \<in> set (new_requests empty_world ?w))"
    by blast
  then have found: "\<exists>c \<in> set [''FR'', ''US''].
      ?q = ''assets/flags/'' @ toLowerCase c @ ''.png'' \<and>
      pngUrl c 512 ''flat'' \<in> set (new_requests empty_world ?w)"
    by (auto simp: lower)
  have urls: "svgUrl ''FR'' = ''https://flagcdn.com/fr.svg''"
    "pngUrl ''FR'' 512 ''flat'' = ''https://flagsapi.com/FR/flat/512.png''"
    by (simp_all add: svgUrl_text pngUrl_text lower)
  from urls found lower code new old simple_sample show ?thesis
    by simp
qed

lemma flags_run_capped:
  "0 < limit os \<Longrightarrow>
     flags_run h codes os w = flags_run h (take (nat (limit os)) codes) (os\<lparr>limit := 0\<rparr>) w"
  by (simp add: flags_run_def capped_def)

lemma downloadFlags_requests_of_list:
  "set (new_requests w (downloadFlags h codes os w)) \<subseteq>
     svgUrl ` set (capped (limit os) codes) \<union>
     (\<lambda>c. pngUrl c 512 ''flat'') ` set (capped (limit os) codes)"
proof
  fix u assume "u \<in> set (new_requests w (downloadFlags h codes os w))"
  with flags_run_facts(4) [of w h codes os] obtain out where
    "(u, out) \<in> targets (svg os \<or> both os) (png os \<or> both os) (capped (limit os) codes)"
    unfolding downloadFlags_new_requests by blast
  from targets_urls [OF this]
  show "u \<in> svgUrl ` set (capped (limit os) codes) \<union>
     (\<lambda>c. pngUrl c 512 ''flat'') ` set (capped (limit os) codes)"
    by blast
qed

text \<open>
  C8. With a limit \<open>N > 0\<close> the run is the run over the first \<open>N\<close> codes: every request
  is for one of them, every file written belongs to one of them, and each of them has its
  file on disk beforehand or its address requested. With the limit 0 this holds of every
  code of the list.
\<close>

theorem limit_caps_the_codes:
  "(0 < limit os \<longrightarrow>
      flags_run h codes os w = flags_run h (take (nat (limit os)) codes) (os\<lparr>limit := 0\<rparr>) w
    \<and> set (new_requests w (downloadFlags h codes os w)) \<subseteq>
        svgUrl ` set (take (nat (limit os)) codes) \<union>
        (\<lambda>c. pngUrl c 512 ''flat'') ` set (take (nat (limit os)) codes)
    \<and> (\<forall>q. files (downloadFlags h codes os w) q \<noteq> files w q \<longrightarrow>
          (\<exists>c \<in> set (take (nat (limit os)) codes). q = svg_out c \<or> q = png_out c))
    \<and> (\<forall>c \<in> set (take (nat (limit os)) codes).
          (svg os \<or> both os \<longrightarrow>
             fileExists w (svg_out c) \<or>
             svgUrl c \<in> set (new_requests w (downloadFlags h codes os w)))
        \<and> (png os \<or> both os \<longrightarrow>
             fileExists w (png_out c) \<or>
             (\<exists>c' \<in> set (take (nat (limit os)) codes). toLowerCase c' = toLowerCase c \<and>
                pngUrl c' 512 ''flat'' \<in> set (new_requests w (downloadFlags h codes os w))))))
   \<and> (limit os = 0 \<longrightarrow>
      (\<forall>c \<in> set codes.
          (svg os \<or> both os \<longrightarrow>
             fileExists w (svg_out c) \<or>
             svgUrl c \<in> set (new_requests w (downloadFlags h codes os w)))
        \<and> (png os \<or> both os \<longrightarrow>
             fileExists w (png_out c) \<or>
             (\<exists>c' \<in> set codes. toLowerCase c' = toLowerCase c \<and>
                pngUrl c' 512 ''flat'' \<in> set (new_requests w (downloadFlags h codes os w))))))"
proof (intro conjI impI)
  assume pos: "0 < limit os"
  then have cap: "capped (limit os) codes = take (nat (limit os)) codes"
    by (simp add: capped_def)
  show "flags_run h codes os w = flags_run h (take (nat (limit os)) codes) (os\<lparr>limit := 0\<rparr>) w"
    using pos by (rule flags_run_capped)
  show "set (new_requests w (downloadFlags h codes os w)) \<subseteq>
        svgUrl ` set (take (nat (limit os)) codes) \<union>
        (\<lambda>c. pngUrl c 512 ''flat'') ` set (take (nat (limit os)) codes)"
    using downloadFlags_requests_of_list [of w h codes os] unfolding cap .
  show "\<forall>q. files (downloadFlags h codes os w) q \<noteq> files w q \<longrightarrow>
          (\<exists>c \<in> set (take (nat (limit os)) codes). q = svg_out c \<or> q = png_out c)"
    using downloadFlags_changed_file [of h codes os w] unfolding cap by blast
  show "\<forall>c \<in> set (take (nat (limit os)) codes).
          (svg os \<or> both os \<longrightarrow>
             fileExists w (svg_out c) \<or>
             svgUrl c \<in> set (new_requests w (downloadFlags h codes os w)))
        \<and> (png os \<or> both os \<longrightarrow>
             fileExists w (png_out c) \<or>
             (\<exists>c' \<in> set (take (nat (limit os)) codes). toLowerCase c' = toLowerCase c \<and>
                pngUrl c' 512 ''flat'' \<in> set (new_requests w (downloadFlags h codes os w))))"
    using flags_run_svg_requested [of _ os codes w h] flags_run_png_requested [of _ os codes w h]
    unfolding cap downloadFlags_new_requests by blast
next
  assume zero: "limit os = 0"
  then have cap: "capped (limit os) codes = codes"
    by (simp add: capped_def)
  show "\<forall>c \<in> set codes.
          (svg os \<or> both os \<longrightarrow>
             fileExists w (svg_out c) \<or>
             svgUrl c \<in> set (new_requests w (downloadFlags h codes os w)))
        \<and> (png os \<or> both os \<longrightarrow>
             fileExists w (png_out c) \<or>
             (\<exists>c' \<in> set codes. toLowerCase c' = toLowerCase c \<and>
                pngUrl c' 512 ''flat'' \<in> set (new_requests w (downloadFlags h codes os w))))"
    using flags_run_svg_requested [of _ os codes w h] flags_run_png_requested [of _ os codes w h]
    unfolding cap downloadFlags_new_requests by blast
qed


theorem limit_caps_the_codes_witness:
  "limit (parseArgs [''--limit'', ''1'']) = 1
   \<and> requests (downloadFlags sample_host [''FR'', ''US''] (parseArgs [''--limit'', ''1''])
         empty_world) = [svgUrl ''FR'']
   \<and> set (new_requests empty_world
         (downloadFlags sample_host [''FR'', ''US''] (parseArgs [''--limit'', ''1'']) empty_world))
       \<subseteq> svgUrl ` set [''FR''] \<union> (\<lambda>c. pngUrl c 512 ''flat'') ` set [''FR'']
   \<and> limit (parseArgs []) = 0
   \<and> requests (downloadFlags sample_host [''FR'', ''US''] (parseArgs []) empty_world) =
       [svgUrl ''FR'', svgUrl ''US'']
   \<and> svgUrl ''FR'' \<in> set (new_requests empty_world
         (downloadFlags sample_host [''FR'', ''US''] (parseArgs []) empty_world))
   \<and> svgUrl ''US'' \<in> set (new_requests empty_world
         (downloadFlags sample_host [''FR'', ''US''] (parseArgs []) empty_world))"
proof -
  let ?one = "parseArgs [''--limit'', ''1'']"
  let ?all = "parseArgs []"
  have one: "limit ?one = 1" and all: "limit ?all = 0" and svg_all: "svg ?all"
    by code_simp+
  have r1: "requests (downloadFlags sample_host [''FR'', ''US''] ?one empty_world) = [svgUrl ''FR'']"
    by code_simp
  have r0: "requests (downloadFlags sample_host [''FR'', ''US''] ?all empty_world) =
      [svgUrl ''FR'', svgUrl ''US'']"
    by code_simp
  note capped = limit_caps_the_codes
    [where os = ?one and h = sample_host and codes = "[''FR'', ''US'']" and w = empty_world]
  note whole = limit_caps_the_codes
    [where os = ?all and h = sample_host and codes = "[''FR'', ''US'']" and w = empty_world]
  from capped one have sub: "set (new_requests empty_world
         (downloadFlags sample_host [''FR'', ''US''] ?one empty_world))
       \<subseteq> svgUrl ` set [''FR''] \<union> (\<lambda>c. pngUrl c 512 ''flat'') ` set [''FR'']"
    by simp
  have absent: "\<not> fileExists empty_world q" for q
    by (simp add: fileExists_def empty_world_def)
  from whole all svg_all absent have every:
    "svgUrl ''FR'' \<in> set (new_requests empty_world
        (downloadFlags sample_host [''FR'', ''US''] ?all empty_world))"
    "svgUrl ''US'' \<in> set (new_requests empty_world
        (downloadFlags sample_host [''FR'', ''US''] ?all empty_world))"
    by simp_all
  from one all r1 r0 sub every show ?thesis
    by blast
qed

text \<open>
  C9. \<^verbatim>\<open>downloadFlags\<close> leaves every file that exists as it is: a file differs after the
  run only if it did not exist before, no address is requested for a code whose
  destination exists, and a second run changes no file that the first run left on disk.
\<close>

theorem existing_flag_files_are_kept:
  "(\<forall>q. fileExists w q \<longrightarrow>
        files (downloadFlags h codes os w) q = files w q \<and> fileExists (downloadFlags h codes os w) q)
   \<and> (\<forall>c. fileExists w (svg_out c) \<longrightarrow>
        svgUrl c \<notin> set (new_requests w (downloadFlags h codes os w)))
   \<and> (\<forall>c. fileExists w (png_out c) \<longrightarrow>
        pngUrl c 512 ''flat'' \<notin> set (new_requests w (downloadFlags h codes os w)))
   \<and> (\<forall>q. fileExists (downloadFlags h codes os w) q \<longrightarrow>
        files (downloadFlags h2 codes os (downloadFlags h codes os w)) q =
        files (downloadFlags h codes os w) q)"
proof -
  let ?T = "targets (svg os \<or> both os) (png os \<or> both os) (capped (limit os) codes)"
  have frame: "fileExists v q \<Longrightarrow> files (downloadFlags g codes os v) q = files v q" for v g q
    using flags_run_facts(5) [of v g codes os] by (simp add: downloadFlags_files fileExists_def)
  have fresh: "\<forall>u \<in> set (new_requests w (downloadFlags h codes os w)).
      \<exists>out. (u, out) \<in> ?T \<and> \<not> fileExists w out"
    using flags_run_facts(4) [of w h codes os]
    by (simp add: downloadFlags_new_requests fileExists_def)
  have svg: "svgUrl c \<notin> set (new_requests w (downloadFlags h codes os w))"
    if "fileExists w (svg_out c)" for c
    using fresh that targets_svgUrl [of c _ "svg os \<or> both os" "png os \<or> both os"] by blast
  have png: "pngUrl c 512 ''flat'' \<notin> set (new_requests w (downloadFlags h codes os w))"
    if "fileExists w (png_out c)" for c
    using fresh that targets_pngUrl [of c _ "svg os \<or> both os" "png os \<or> both os"] by blast
  have kept: "fileExists (downloadFlags h codes os w) q" if "fileExists w q" for q
    using frame [OF that, of h] that by (auto simp: fileExists_def dom_def)
  show ?thesis
    using frame kept svg png by blast
qed

theorem existing_flag_files_are_kept_witness:
  "fileExists old_world (svg_out ''US'')
   \<and> files (downloadFlags sample_host [''FR'', ''US''] (parseArgs []) old_world) (svg_out ''US'') =
       Some ''old''
   \<and> svgUrl ''US'' \<notin> set (new_requests old_world
         (downloadFlags sample_host [''FR'', ''US''] (parseArgs []) old_world))
   \<and> requests (downloadFlags sample_host [''FR'', ''US''] (parseArgs []) old_world) =
       [svgUrl ''FR'']
   \<and> files (downloadFlags offline_host [''FR'', ''US''] (parseArgs [])
         (downloadFlags sample_host [''FR'', ''US''] (parseArgs []) old_world)) (svg_out ''US'') =
       Some ''old''"
proof -
  have there: "fileExists old_world (svg_out ''US'')"
    by (simp add: fileExists_def old_world_def)
  have content: "files old_world (svg_out ''US'') = Some ''old''"
    by (simp add: old_world_def)
  have reqs: "requests (downloadFlags sample_host [''FR'', ''US''] (parseArgs []) old_world) =
       [svgUrl ''FR'']"
    by code_simp
  note inst = existing_flag_files_are_kept
    [where w = old_world and h = sample_host and codes = "[''FR'', ''US'']"
       and os = "parseArgs []" and ?h2.0 = offline_host]
  from inst there content reqs show ?thesis
    by simp
qed

subsection \<open>The options\<close>

lemma opt_name_no_eq: "CHR ''='' \<notin> set (opt_name arg)"
proof (cases "CHR ''='' \<in> set arg")
  case True
  have "\<forall>c \<in> set (takeWhile not_eq_sign arg). not_eq_sign c"
    by (meson set_takeWhileD)
  then show ?thesis
    using True by (auto simp: opt_name_def split_k_def not_eq_sign_def)
next
  case False
  then show ?thesis by (simp add: opt_name_def)
qed

lemma opt_name_not_only_json: "opt_name arg \<noteq> ''--only=json''"
  using opt_name_no_eq [of arg] by auto

lemma opt_val_bare: "opt_name arg = ''--limit'' \<Longrightarrow> opt_val arg = None \<longleftrightarrow> arg = ''--limit''"
  by (auto simp: opt_name_def opt_val_def)

lemma parse_loop_Cons:
  "parse_loop (arg # rest) os =
     (if arg = ''--limit''
      then (case rest of
              [] \<Rightarrow> os\<lparr>limit := 0\<rparr>
            | nxt # rest' \<Rightarrow> parse_loop rest' (os\<lparr>limit := Number_or_0 nxt\<rparr>))
      else parse_loop rest (handle_arg arg os))"
proof (cases "arg = ''--limit''")
  case True
  then have "opt_name arg = ''--limit''" "opt_val arg = None"
    by (simp_all add: opt_name_def opt_val_def)
  with True show ?thesis by (simp add: Let_def)
next
  case False
  show ?thesis
  proof (cases "opt_name arg = ''--limit''")
    case True
    with False obtain v where "opt_val arg = Some v"
      using opt_val_bare [of arg] by auto
    with True False show ?thesis
      by (simp add: Let_def handle_arg_def)
  next
    case other: False
    with False show ?thesis
      by (simp add: Let_def handle_arg_def)
  qed
qed


declare parse_loop.simps(2) [simp del]

lemma parse_induct [case_names Nil Limit_last Limit_next Other]:
  assumes "\<And>os. P [] os"
    and "\<And>os. P [''--limit''] os"
    and "\<And>nxt rest os. P rest (os\<lparr>limit := Number_or_0 nxt\<rparr>) \<Longrightarrow> P (''--limit'' # nxt # rest) os"
    and "\<And>arg rest os. arg \<noteq> ''--limit'' \<Longrightarrow> P rest (handle_arg arg os) \<Longrightarrow> P (arg # rest) os"
  shows "P args os"
proof (induction args arbitrary: os rule: length_induct)
  case (1 xs)
  show ?case
  proof (cases xs)
    case Nil
    then show ?thesis using assms(1) by simp
  next
    case (Cons arg rest)
    show ?thesis
    proof (cases "arg = ''--limit''")
      case True
      show ?thesis
      proof (cases rest)
        case Nil
        with True Cons show ?thesis using assms(2) by simp
      next
        case inner: (Cons nxt rest')
        have "P rest' (os\<lparr>limit := Number_or_0 nxt\<rparr>)"
          using "1.IH" Cons inner by simp
        with True Cons inner show ?thesis using assms(3) by simp
      qed
    next
      case False
      have "P rest (handle_arg arg os)"
        using "1.IH" Cons by simp
      with False Cons show ?thesis using assms(4) by simp
    qed
  qed
qed

lemma handle_arg_noFlags: "noFlags os \<Longrightarrow> noFlags (handle_arg arg os)"
  by (simp add: handle_arg_def Let_def split: option.splits)

lemma handle_arg_flags_untouched:
  assumes "opt_name arg \<notin> {''--no-flags'', ''--svg'', ''--png'', ''--both''}"
  shows "svg (handle_arg arg os) = svg os \<and> png (handle_arg arg os) = png os
       \<and> both (handle_arg arg os) = both os \<and> noFlags (handle_arg arg os) = noFlags os"
  using assms opt_name_not_only_json [of arg]
  by (simp add: handle_arg_def Let_def split: option.splits)

lemma handle_arg_json_untouched:
  assumes "opt_name arg \<notin> {''--json'', ''--no-json''}"
  shows "json (handle_arg arg os) = json os"
  using assms opt_name_not_only_json [of arg]
  by (simp add: handle_arg_def Let_def split: option.splits)

lemma handle_arg_flags_off:
  assumes "opt_name arg \<notin> {''--svg'', ''--png'', ''--both''}"
    and "\<not> svg os \<and> \<not> png os \<and> \<not> both os"
  shows "\<not> svg (handle_arg arg os) \<and> \<not> png (handle_arg arg os) \<and> \<not> both (handle_arg arg os)"
  using assms by (simp add: handle_arg_def Let_def split: option.splits)

lemma handle_arg_no_flags:
  "handle_arg ''--no-flags'' os = os\<lparr>noFlags := True, svg := False, png := False, both := False\<rparr>"
  by (simp add: handle_arg_def opt_name_def)

lemma parse_loop_noFlags: "noFlags os \<Longrightarrow> noFlags (parse_loop args os)"
  by (induction args os rule: parse_induct) (simp_all add: parse_loop_Cons handle_arg_noFlags)

lemma parse_loop_flags_untouched:
  assumes "\<forall>arg \<in> set args. opt_name arg \<notin> {''--no-flags'', ''--svg'', ''--png'', ''--both''}"
  shows "svg (parse_loop args os) = svg os \<and> png (parse_loop args os) = png os
       \<and> both (parse_loop args os) = both os \<and> noFlags (parse_loop args os) = noFlags os"
  using assms
proof (induction args os rule: parse_induct)
  case (Other arg rest os)
  then show ?case
    using handle_arg_flags_untouched [of arg os] by (simp add: parse_loop_Cons)
qed (simp_all add: parse_loop_Cons)

lemma parse_loop_json_untouched:
  assumes "\<forall>arg \<in> set args. opt_name arg \<notin> {''--json'', ''--no-json''}"
  shows "json (parse_loop args os) = json os"
  using assms
proof (induction args os rule: parse_induct)
  case (Other arg rest os)
  then show ?case
    using handle_arg_json_untouched [of arg os] by (simp add: parse_loop_Cons)
qed (simp_all add: parse_loop_Cons)

lemma parse_loop_flags_off:
  assumes "\<forall>arg \<in> set args. opt_name arg \<notin> {''--svg'', ''--png'', ''--both''}"
    and "\<not> svg os \<and> \<not> png os \<and> \<not> both os"
  shows "\<not> svg (parse_loop args os) \<and> \<not> png (parse_loop args os) \<and> \<not> both (parse_loop args os)"
  using assms
proof (induction args os rule: parse_induct)
  case (Other arg rest os)
  then show ?case
    using handle_arg_flags_off [of arg os] by (simp add: parse_loop_Cons)
qed (simp_all add: parse_loop_Cons)

lemma parse_loop_append:
  "''--limit'' \<notin> set pre \<Longrightarrow> parse_loop (pre @ rest) os = parse_loop rest (parse_loop pre os)"
proof (induction pre arbitrary: os)
  case Nil
  then show ?case by simp
next
  case (Cons arg pre)
  then have "arg \<noteq> ''--limit''" and "''--limit'' \<notin> set pre"
    by auto
  with Cons.IH show ?case
    by (simp add: parse_loop_Cons)
qed


subsection \<open>\<^verbatim>\<open>main\<close>\<close>

lemma fetchCountries_world:
  "snd (fetchCountries h w) = w\<lparr>requests := requests w @ [COUNTRIES_URL]\<rparr>"
  by (simp add: fetchCountries_def fetch_def split: fetch_result.splits option.splits)

lemma saveCountriesJson_world:
  "requests (saveCountriesJson w items) = requests w"
  "files (saveCountriesJson w items) = (files w)(COUNTRIES_JSON \<mapsto> JSON_stringify items)"
  by (simp_all add: saveCountriesJson_def console_log_def writeFile_def)

lemma main_without_flags:
  assumes "noFlags (parseArgs args)"
  shows "requests (snd (main h args w)) = requests w @ [COUNTRIES_URL]
       \<and> (\<forall>q. q \<noteq> COUNTRIES_JSON \<longrightarrow> files (snd (main h args w)) q = files w q)"
proof -
  obtain r w1 where run: "fetchCountries h w = (r, w1)"
    by (cases "fetchCountries h w")
  with fetchCountries_world [of h w] have w1: "w1 = w\<lparr>requests := requests w @ [COUNTRIES_URL]\<rparr>"
    by simp
  show ?thesis
  proof (cases r)
    case (Inl e)
    with run w1 show ?thesis by (simp add: main_def Let_def)
  next
    case (Inr countries)
    with run w1 assms show ?thesis
      by (simp add: main_def Let_def saveCountriesJson_world)
  qed
qed

lemma parseArgs_no_flags_given:
  assumes "''--limit'' \<notin> set pre"
  shows "noFlags (parseArgs (pre @ ''--no-flags'' # post))"
    and "\<forall>arg \<in> set post. opt_name arg \<notin> {''--svg'', ''--png'', ''--both''} \<Longrightarrow>
         \<not> svg (parseArgs (pre @ ''--no-flags'' # post))
       \<and> \<not> png (parseArgs (pre @ ''--no-flags'' # post))
       \<and> \<not> both (parseArgs (pre @ ''--no-flags'' # post))"
proof -
  let ?os1 = "(parse_loop pre initial_opts)\<lparr>noFlags := True, svg := False, png := False, both := False\<rparr>"
  have loop: "parse_loop (pre @ ''--no-flags'' # post) initial_opts = parse_loop post ?os1"
    using assms by (simp add: parse_loop_append parse_loop_Cons handle_arg_no_flags)
  have sticky: "noFlags (parse_loop post ?os1)"
    by (rule parse_loop_noFlags) simp
  with loop show "noFlags (parseArgs (pre @ ''--no-flags'' # post))"
    by (simp add: parseArgs_def Let_def)
  assume "\<forall>arg \<in> set post. opt_name arg \<notin> {''--svg'', ''--png'', ''--both''}"
  then have "\<not> svg (parse_loop post ?os1) \<and> \<not> png (parse_loop post ?os1) \<and> \<not> both (parse_loop post ?os1)"
    by (rule parse_loop_flags_off) simp
  with loop sticky show "\<not> svg (parseArgs (pre @ ''--no-flags'' # post))
       \<and> \<not> png (parseArgs (pre @ ''--no-flags'' # post))
       \<and> \<not> both (parseArgs (pre @ ''--no-flags'' # post))"
    by (simp add: parseArgs_def Let_def)
qed

lemma parseArgs_default_flags:
  assumes "\<forall>arg \<in> set args. opt_name arg \<notin> {''--no-flags'', ''--svg'', ''--png'', ''--both''}"
  shows "svg (parseArgs args) \<and> \<not> png (parseArgs args) \<and> \<not> both (parseArgs args)
       \<and> \<not> noFlags (parseArgs args)"
  using parse_loop_flags_untouched [OF assms, of initial_opts]
  by (simp add: parseArgs_def Let_def initial_opts_def)

lemma parseArgs_default_json:
  assumes "\<forall>arg \<in> set args. opt_name arg \<notin> {''--json'', ''--no-json''}"
  shows "json (parseArgs args)"
  using parse_loop_json_untouched [OF assms, of initial_opts]
  by (simp add: parseArgs_def Let_def initial_opts_def)

text \<open>The branch of line 40 is never taken: the text before a \<^verbatim>\<open>=\<close> holds no \<^verbatim>\<open>=\<close>.\<close>

lemma only_json_not_recognised: "parseArgs (''--only=json'' # rest) = parseArgs rest"
proof -
  have "handle_arg ''--only=json'' os = os" for os
    by (simp add: handle_arg_def Let_def opt_name_def opt_val_def split_k_def not_eq_sign_def)
  then show ?thesis
    by (simp add: parseArgs_def parse_loop_Cons)
qed

text \<open>
  C10, as the claim states it, fails: after \<^verbatim>\<open>--no-flags\<close> a later \<^verbatim>\<open>--svg\<close> sets \<^verbatim>\<open>svg\<close>
  again, and \<^verbatim>\<open>--no-json\<close>, given with no option for the flags, turns \<^verbatim>\<open>json\<close> off.
\<close>

theorem later_options_override:
  "svg (parseArgs [''--no-flags'', ''--svg'']) \<and> \<not> json (parseArgs [''--no-json''])"
  by code_simp

text \<open>
  C10, amended. With no option among \<^verbatim>\<open>--no-flags\<close>, \<^verbatim>\<open>--svg\<close>, \<^verbatim>\<open>--png\<close>, \<^verbatim>\<open>--both\<close> and
  \<^verbatim>\<open>--only\<close> the result has \<^verbatim>\<open>svg\<close> true and \<^verbatim>\<open>png\<close>, \<^verbatim>\<open>both\<close>, \<^verbatim>\<open>noFlags\<close> false; with no
  option among \<^verbatim>\<open>--json\<close>, \<^verbatim>\<open>--no-json\<close> and \<^verbatim>\<open>--only\<close> it has \<^verbatim>\<open>json\<close> true. When
  \<^verbatim>\<open>--no-flags\<close> is given and no \<^verbatim>\<open>--limit\<close> without \<^verbatim>\<open>=\<close> stands before it, \<^verbatim>\<open>noFlags\<close> is
  true and \<^verbatim>\<open>main\<close> downloads no flag: its only request is the list and no file other
  than \<^verbatim>\<open>countries.json\<close> changes; \<^verbatim>\<open>svg\<close>, \<^verbatim>\<open>png\<close> and \<^verbatim>\<open>both\<close> are then all false when none
  of \<^verbatim>\<open>--svg\<close>, \<^verbatim>\<open>--png\<close>, \<^verbatim>\<open>--both\<close> follows.
\<close>

theorem parseArgs_defaults_and_no_flags:
  "(opt_name ` set args \<inter> {''--no-flags'', ''--svg'', ''--png'', ''--both'', ''--only''} = {} \<longrightarrow>
      svg (parseArgs args) \<and> \<not> png (parseArgs args) \<and> \<not> both (parseArgs args)
      \<and> \<not> noFlags (parseArgs args))
   \<and> (opt_name ` set args \<inter> {''--json'', ''--no-json'', ''--only''} = {} \<longrightarrow>
      json (parseArgs args))
   \<and> (''--limit'' \<notin> set pre \<longrightarrow>
      noFlags (parseArgs (pre @ ''--no-flags'' # post))
      \<and> requests (snd (main h (pre @ ''--no-flags'' # post) w)) = requests w @ [COUNTRIES_URL]
      \<and> (\<forall>q. q \<noteq> COUNTRIES_JSON \<longrightarrow>
            files (snd (main h (pre @ ''--no-flags'' # post) w)) q = files w q)
      \<and> (opt_name ` set post \<inter> {''--svg'', ''--png'', ''--both''} = {} \<longrightarrow>
            \<not> svg (parseArgs (pre @ ''--no-flags'' # post))
            \<and> \<not> png (parseArgs (pre @ ''--no-flags'' # post))
            \<and> \<not> both (parseArgs (pre @ ''--no-flags'' # post))))"
proof (intro conjI impI)
  assume "opt_name ` set args \<inter> {''--no-flags'', ''--svg'', ''--png'', ''--both'', ''--only''} = {}"
  then have "\<forall>arg \<in> set args. opt_name arg \<notin> {''--no-flags'', ''--svg'', ''--png'', ''--both''}"
    by blast
  from parseArgs_default_flags [OF this]
  show "svg (parseArgs args)" "\<not> png (parseArgs args)" "\<not> both (parseArgs args)"
    "\<not> noFlags (parseArgs args)"
    by simp_all
next
  assume "opt_name ` set args \<inter> {''--json'', ''--no-json'', ''--only''} = {}"
  then have "\<forall>arg \<in> set args. opt_name arg \<notin> {''--json'', ''--no-json''}"
    by blast
  then show "json (parseArgs args)"
    by (rule parseArgs_default_json)
next
  assume pre: "''--limit'' \<notin> set pre"
  then show off: "noFlags (parseArgs (pre @ ''--no-flags'' # post))"
    by (rule parseArgs_no_flags_given(1))
  from main_without_flags [OF off, of h w]
  show "requests (snd (main h (pre @ ''--no-flags'' # post) w)) = requests w @ [COUNTRIES_URL]"
    and "\<forall>q. q \<noteq> COUNTRIES_JSON \<longrightarrow>
            files (snd (main h (pre @ ''--no-flags'' # post) w)) q = files w q"
    by simp_all
  assume "opt_name ` set post \<inter> {''--svg'', ''--png'', ''--both''} = {}"
  then have "\<forall>arg \<in> set post. opt_name arg \<notin> {''--svg'', ''--png'', ''--both''}"
    by blast
  from parseArgs_no_flags_given(2) [OF pre this]
  show "\<not> svg (parseArgs (pre @ ''--no-flags'' # post))"
    "\<not> png (parseArgs (pre @ ''--no-flags'' # post))"
    "\<not> both (parseArgs (pre @ ''--no-flags'' # post))"
    by simp_all
qed

theorem parseArgs_defaults_and_no_flags_witness:
  "opt_name ` set [''--limit=5''] \<inter> {''--no-flags'', ''--svg'', ''--png'', ''--both'', ''--only''} = {}
   \<and> opt_name ` set [''--limit=5''] \<inter> {''--json'', ''--no-json'', ''--only''} = {}
   \<and> svg (parseArgs [''--limit=5'']) \<and> json (parseArgs [''--limit=5''])
   \<and> \<not> noFlags (parseArgs [''--limit=5''])
   \<and> ''--limit'' \<notin> set [''--both'']
   \<and> opt_name ` set [''--limit'', ''3''] \<inter> {''--svg'', ''--png'', ''--both''} = {}
   \<and> noFlags (parseArgs ([''--both''] @ ''--no-flags'' # [''--limit'', ''3'']))
   \<and> \<not> svg (parseArgs ([''--both''] @ ''--no-flags'' # [''--limit'', ''3'']))
   \<and> \<not> png (parseArgs ([''--both''] @ ''--no-flags'' # [''--limit'', ''3'']))
   \<and> \<not> both (parseArgs ([''--both''] @ ''--no-flags'' # [''--limit'', ''3'']))
   \<and> requests (snd (main sample_host ([''--both''] @ ''--no-flags'' # [''--limit'', ''3''])
         empty_world)) = [COUNTRIES_URL]"
proof -
  have names: "opt_name ''--limit=5'' = ''--limit''" "opt_name ''--limit'' = ''--limit''"
    "opt_name ''3'' = ''3''"
    by code_simp+
  have empty: "requests empty_world = []"
    by (simp add: empty_world_def)
  note first = parseArgs_defaults_and_no_flags
    [where args = "[''--limit=5'']" and pre = "[''--both'']" and post = "[''--limit'', ''3'']"
       and h = sample_host and w = empty_world]
  from first names empty show ?thesis
    by simp
qed

subsection \<open>The sample of three countries\<close>

lemma keep_AA: "keep \<lparr>code = ''AA'', name = n\<rparr> \<longleftrightarrow> n \<noteq> []"
  by (simp add: keep_def test_AZ2_def is_AZ_def upper_letters_def)

lemma keep_US_FR:
  "keep \<lparr>code = ''US'', name = ''United States''\<rparr>" "keep \<lparr>code = ''FR'', name = ''France''\<rparr>"
  by code_simp+

lemma upper_codes:
  "toUpperCase h ''AA'' = ''AA''" "toUpperCase h ''US'' = ''US''" "toUpperCase h ''FR'' = ''FR''"
proof -
  have "is_ascii ''AA''" "is_ascii ''US''" "is_ascii ''FR''"
    by code_simp+
  moreover have "map upper_char ''AA'' = ''AA''" "map upper_char ''US'' = ''US''"
    "map upper_char ''FR'' = ''FR''"
    by code_simp+
  ultimately show "toUpperCase h ''AA'' = ''AA''" "toUpperCase h ''US'' = ''US''"
    "toUpperCase h ''FR'' = ''FR''"
    by (simp_all only: toUpperCase_ascii)
qed

text \<open>
  The pattern of line 64 accepts the code \<^verbatim>\<open>AA\<close>: it is for its missing name that the \<^verbatim>\<open>AA\<close>
  record of the sample is left out, and with a name it is kept.
\<close>

lemma simple_named_AA:
  "simple sample_host named_AA_list =
     [\<lparr>code = ''AA'', name = ''Atlantis''\<rparr>, \<lparr>code = ''FR'', name = ''France''\<rparr>,
      \<lparr>code = ''US'', name = ''United States''\<rparr>]"
  by code_simp

text \<open>
  C2. For the list of three entries, one with the code \<^verbatim>\<open>AA\<close> and no name, one with the code
  \<^verbatim>\<open>US\<close> and the name United States, one with the code \<^verbatim>\<open>FR\<close> and the name France, lines 62
  to 66 give exactly the \<^verbatim>\<open>FR\<close> record followed by the \<^verbatim>\<open>US\<close> record, whatever else the
  entries hold, with any \<^verbatim>\<open>localeCompare\<close> that puts France before United States.
\<close>

theorem sample_of_three_countries:
  assumes "localeCompare h ''France'' ''United States'' < 0"
    and "0 < localeCompare h ''United States'' ''France''"
  shows "simple h
           [\<lparr>cca2 = Some ''AA'', api_name = None, region = r0\<rparr>,
            \<lparr>cca2 = Some ''US'', api_name = Some \<lparr>common = Some ''United States''\<rparr>, region = r1\<rparr>,
            \<lparr>cca2 = Some ''FR'', api_name = Some \<lparr>common = Some ''France''\<rparr>, region = r2\<rparr>] =
         [\<lparr>code = ''FR'', name = ''France''\<rparr>, \<lparr>code = ''US'', name = ''United States''\<rparr>]"
proof -
  let ?aa = "\<lparr>cca2 = Some ''AA'', api_name = None, region = r0\<rparr>"
  let ?us = "\<lparr>cca2 = Some ''US'', api_name = Some \<lparr>common = Some ''United States''\<rparr>, region = r1\<rparr>"
  let ?fr = "\<lparr>cca2 = Some ''FR'', api_name = Some \<lparr>common = Some ''France''\<rparr>, region = r2\<rparr>"
  have aa: "reshape h ?aa = \<lparr>code = ''AA'', name = []\<rparr>"
    by (simp add: reshape_def or_empty_def name_common_def upper_codes)
  have us: "reshape h ?us = \<lparr>code = ''US'', name = ''United States''\<rparr>"
    by (simp add: reshape_def or_empty_def name_common_def upper_codes)
  have fr: "reshape h ?fr = \<lparr>code = ''FR'', name = ''France''\<rparr>"
    by (simp add: reshape_def or_empty_def name_common_def upper_codes)
  have order: "\<not> by_name h \<lparr>code = ''US'', name = ''United States''\<rparr>
      \<lparr>code = ''FR'', name = ''France''\<rparr> \<le> 0"
    using assms(2) by (simp add: by_name_def)
  from order show ?thesis
    by (simp add: simple_def aa us fr keep_AA keep_US_FR)
qed

theorem sample_of_three_countries_witness:
  "localeCompare sample_host ''France'' ''United States'' < 0
   \<and> 0 < localeCompare sample_host ''United States'' ''France''
   \<and> sample_list =
        [\<lparr>cca2 = Some ''AA'', api_name = None, region = None\<rparr>,
         \<lparr>cca2 = Some ''US'', api_name = Some \<lparr>common = Some ''United States''\<rparr>,
            region = Some ''Americas''\<rparr>,
         \<lparr>cca2 = Some ''FR'', api_name = Some \<lparr>common = Some ''France''\<rparr>,
            region = Some ''Europe''\<rparr>]
   \<and> simple sample_host sample_list =
       [\<lparr>code = ''FR'', name = ''France''\<rparr>, \<lparr>code = ''US'', name = ''United States''\<rparr>]"
proof -
  have before: "localeCompare sample_host ''France'' ''United States'' < 0"
    and after: "0 < localeCompare sample_host ''United States'' ''France''"
    by code_simp+
  note one = sample_of_three_countries
    [OF before after, where ?r0.0 = None and ?r1.0 = "Some ''Americas''"
       and ?r2.0 = "Some ''Europe''"]
  from one before after show ?thesis
    by (simp add: sample_list_def)
qed

subsection \<open>Codes that occur twice\<close>

lemma simple_twice_FR:
  "simple sample_host twice_FR_list =
     [\<lparr>code = ''FR'', name = ''France''\<rparr>, \<lparr>code = ''FR'', name = ''French Republic''\<rparr>]"
  by code_simp

text \<open>
  C4, as the claim states it, fails: two entries with the code \<^verbatim>\<open>FR\<close> give two records
  with the code \<^verbatim>\<open>FR\<close>.
\<close>

theorem twice_FR_gives_two_records:
  "\<not> distinct (map code (simple sample_host twice_FR_list))"
  by (simp add: simple_twice_FR)

lemma mset_simple: "mset (simple h data) = mset (filter keep (map (reshape h) data))"
  by (simp add: simple_def mset_js_sort)

text \<open>
  C4, amended. The result has one record for each entry that passes the filter, with
  the codes of those entries in upper case, each as often as it occurs among them: no two
  records share a code exactly when no two kept entries have the same code in upper case,
  and in particular when the codes of the entries, in upper case, are pairwise different.
\<close>

theorem codes_unique_when_upper_case_codes_are:
  "mset (map code (simple h data)) = mset (map code (filter keep (map (reshape h) data)))
   \<and> (distinct (map code (simple h data)) \<longleftrightarrow>
        distinct (map code (filter keep (map (reshape h) data))))
   \<and> (distinct (map (\<lambda>c. toUpperCase h (or_empty (cca2 c))) data) \<longrightarrow>
        distinct (map code (simple h data)))"
proof -
  have counts: "mset (map code (simple h data)) =
      mset (map code (filter keep (map (reshape h) data)))"
    using mset_simple [of h data] by (metis mset_map)
  then have iff: "distinct (map code (simple h data)) \<longleftrightarrow>
      distinct (map code (filter keep (map (reshape h) data)))"
    by (rule mset_eq_imp_distinct_iff)
  have "distinct (map code (filter keep (map (reshape h) data)))"
    if "distinct (map (\<lambda>c. toUpperCase h (or_empty (cca2 c))) data)"
  proof -
    have "code (reshape h c) = toUpperCase h (or_empty (cca2 c))" for c
      by (simp add: reshape_def)
    then have "map code (map (reshape h) data) =
        map (\<lambda>c. toUpperCase h (or_empty (cca2 c))) data"
      by (simp add: comp_def)
    with that have "distinct (map code (map (reshape h) data))"
      by (simp only:)
    then show ?thesis
      by (rule distinct_map_filter)
  qed
  with counts iff show ?thesis by blast
qed

theorem codes_unique_when_upper_case_codes_are_witness:
  "map (\<lambda>c. toUpperCase sample_host (or_empty (cca2 c))) sample_list = [''AA'', ''US'', ''FR'']
   \<and> distinct (map (\<lambda>c. toUpperCase sample_host (or_empty (cca2 c))) sample_list)
   \<and> distinct (map code (simple sample_host sample_list))
   \<and> map code (simple sample_host sample_list) = [''FR'', ''US'']"
proof -
  have codes: "map (\<lambda>c. toUpperCase sample_host (or_empty (cca2 c))) sample_list =
      [''AA'', ''US'', ''FR'']"
    by code_simp
  then have "distinct (map (\<lambda>c. toUpperCase sample_host (or_empty (cca2 c))) sample_list)"
    by simp
  with codes codes_unique_when_upper_case_codes_are [of sample_host sample_list] simple_sample
  show ?thesis
    by simp
qed

subsection \<open>The written text read back\<close>

lemma hex_val_table: "list_all (\<lambda>k. hex_val (hex_char k) = Some k) [0..<16]"
  by code_simp

lemma hex_val_hex_char: "hex_val (hex_char d) = Some (d mod 16)"
proof -
  have "d mod 16 \<in> set [0..<16]"
    by simp
  with hex_val_table have "hex_val (hex_char (d mod 16)) = Some (d mod 16)"
    unfolding list_all_iff by blast
  then show ?thesis
    by (simp add: hex_char_def)
qed

lemma read_chars_escape:
  "read_chars (json_escape c @ t) =
     (case read_chars t of Some (s, r) \<Rightarrow> Some (c # s, r) | None \<Rightarrow> None)"
proof -
  let ?n = "of_char c :: nat"
  have undo: "char_of (16 * (?n div 16 mod 16) + ?n mod 16) = c" if "?n < 32"
  proof -
    from that have "?n div 16 mod 16 = ?n div 16"
      by simp
    then have "16 * (?n div 16 mod 16) + ?n mod 16 = ?n"
      by simp
    then show ?thesis
      by (simp only: char_of_char)
  qed
  show ?thesis
    by (simp add: json_escape_def unescape_def hex_val_hex_char undo
        split: option.splits prod.splits)
qed

lemma read_chars_quote: "read_chars (concat (map json_escape s) @ CHR 0x22 # r) = Some (s, r)"
proof (induction s)
  case Nil
  show ?case by simp
next
  case (Cons c s)
  then show ?case
    by (simp add: read_chars_escape del: read_chars.simps)
qed

lemma read_quoted_quote: "read_quoted (json_quote s @ r) = Some (s, r)"
  using read_chars_quote [of s r] by (simp add: read_quoted_def json_quote_def del: read_chars.simps)

lemma expect_prefix: "expect p (p @ r) = Some r"
  by (simp add: expect_def)

lemma stringify_country_parts:
  "stringify_country c = obj_open @ json_quote (code c) @ obj_mid @ json_quote (name c) @ obj_close"
  by (simp add: stringify_country_def obj_open_def obj_mid_def obj_close_def)

lemma read_country_stringify: "read_country (stringify_country c @ r) = Some (c, r)"
  by (simp add: read_country_def stringify_country_parts expect_prefix read_quoted_quote)


lemma stringify_country_not_empty: "Suc 0 \<le> length (stringify_country c)"
  by (simp add: stringify_country_def)

lemma length_join_with:
  "length items \<le> length (join_with sep (map stringify_country items))"
proof (induction items)
  case Nil
  show ?case by simp
next
  case (Cons c cs)
  show ?case
  proof (cases cs)
    case Nil
    with stringify_country_not_empty [of c] show ?thesis
      by simp
  next
    case (Cons d ds)
    with Cons.IH stringify_country_not_empty [of c] show ?thesis
      by simp
  qed
qed

lemma item_sep_not_close: "item_sep @ t \<noteq> list_close"
  by (simp add: item_sep_def list_close_def nl_def)

lemma list_open_not_empty_list: "list_open @ t \<noteq> ''[]''"
  by (simp add: list_open_def nl_def)

lemma read_countries_last:
  "read_countries (Suc k) (stringify_country c @ list_close) = Some [c]"
  by (simp add: read_country_stringify)

lemma read_countries_more:
  "read_countries (Suc k) (stringify_country c @ item_sep @ t) =
     map_option ((#) c) (read_countries k t)"
  by (simp add: read_country_stringify item_sep_not_close expect_prefix)

lemma read_countries_join:
  assumes "items \<noteq> []" and "length items \<le> k"
  shows "read_countries k (join_with item_sep (map stringify_country items) @ list_close) =
           Some items"
  using assms
proof (induction items arbitrary: k)
  case Nil
  then show ?case by simp
next
  case (Cons c cs)
  from Cons.prems(2) obtain k' where k: "k = Suc k'" and k': "length cs \<le> k'"
    by (cases k) simp_all
  show ?case
  proof (cases cs)
    case Nil
    then show ?thesis
      using read_countries_last [of k' c] by (simp add: k del: read_countries.simps)
  next
    case inner: (Cons d ds)
    let ?rest = "join_with item_sep (map stringify_country cs) @ list_close"
    have shape: "join_with item_sep (map stringify_country (c # cs)) @ list_close =
        stringify_country c @ item_sep @ ?rest"
      using inner by simp
    have "read_countries k' ?rest = Some cs"
      using Cons.IH [of k'] inner k' by simp
    then show ?thesis
      unfolding shape k read_countries_more by simp
  qed
qed

lemma JSON_stringify_parts:
  "items \<noteq> [] \<Longrightarrow>
     JSON_stringify items = list_open @ join_with item_sep (map stringify_country items) @ list_close"
  by (simp add: JSON_stringify_def list_open_def item_sep_def list_close_def)

text \<open>Reading the written text back gives the list that was written.\<close>

lemma read_countries_json_stringify: "read_countries_json (JSON_stringify items) = Some items"
proof (cases "items = []")
  case True
  then show ?thesis
    by (simp add: read_countries_json_def JSON_stringify_def)
next
  case False
  let ?body = "join_with item_sep (map stringify_country items) @ list_close"
  have "length items \<le> length (list_open @ ?body)"
    using length_join_with [of items item_sep] by simp
  then have "read_countries (length (list_open @ ?body)) ?body = Some items"
    using False by (intro read_countries_join)
  then show ?thesis
    unfolding JSON_stringify_parts [OF False] read_countries_json_def
    by (simp only: list_open_not_empty_list expect_prefix if_False option.case)
qed

subsection \<open>The saved list\<close>

lemma sorted_wrt_nth:
  "sorted_wrt P xs \<Longrightarrow> i < j \<Longrightarrow> j < length xs \<Longrightarrow> P (xs ! i) (xs ! j)"
  by (simp add: sorted_wrt_iff_nth_less)

lemma downloadFlags_keeps: "q \<in> dom (files w) \<Longrightarrow> files (downloadFlags h codes os w) q = files w q"
  using flags_run_facts(5) [of w h codes os] by (simp add: downloadFlags_files)

lemma main_saves_list:
  assumes "fetch_at h (length (requests w)) COUNTRIES_URL = Resolved res"
    and "ok res" and "json_data res = Some data" and "json (parseArgs args)"
  shows "fst (main h args w) = Inr ()"
    and "files (snd (main h args w)) COUNTRIES_JSON = Some (JSON_stringify (simple h data))"
proof -
  let ?w1 = "w\<lparr>requests := requests w @ [COUNTRIES_URL]\<rparr>"
  let ?w2 = "saveCountriesJson ?w1 (simple h data)"
  have saved: "files ?w2 COUNTRIES_JSON = Some (JSON_stringify (simple h data))"
    by (simp add: saveCountriesJson_world)
  then have "COUNTRIES_JSON \<in> dom (files ?w2)"
    by auto
  from downloadFlags_keeps [OF this] saved
  have kept: "files (downloadFlags h codes os ?w2) COUNTRIES_JSON =
      Some (JSON_stringify (simple h data))" for codes os
    by simp
  show "fst (main h args w) = Inr ()"
    using fetchCountries_resolved [OF assms(1-3)] by (simp add: main_def Let_def)
  show "files (snd (main h args w)) COUNTRIES_JSON = Some (JSON_stringify (simple h data))"
    using fetchCountries_resolved [OF assms(1-3)] assms(4) saved kept
    by (simp add: main_def Let_def)
qed


text \<open>
  C3. In a locale whose collation is consistent, when the list address answers with a
  list of country objects, \<^verbatim>\<open>fetchCountries\<close> returns \<^verbatim>\<open>{code, name}\<close> records in ascending
  order of name: a record never compares greater than a later one. \<^verbatim>\<open>saveCountriesJson\<close>
  writes the JSON text of that list to \<^verbatim>\<open>assets/countries.json\<close>, a text that reads back
  as exactly that list of \<^verbatim>\<open>{code, name}\<close> objects, and that text is what the file holds
  when \<^verbatim>\<open>main\<close> has run with the JSON option on.
\<close>

theorem saved_list_is_simplified_and_sorted:
  assumes "consistent (localeCompare h)"
    and "fetch_at h (length (requests w)) COUNTRIES_URL = Resolved res"
    and "ok res" and "json_data res = Some data"
  shows "fst (fetchCountries h w) = Inr (simple h data)
       \<and> sorted_wrt (\<lambda>a b. localeCompare h (name a) (name b) \<le> 0) (simple h data)
       \<and> (\<forall>i j. i < j \<and> j < length (simple h data) \<longrightarrow>
             localeCompare h (name (simple h data ! i)) (name (simple h data ! j)) \<le> 0)
       \<and> (\<forall>r \<in> set (simple h data). \<exists>d \<in> set data.
             r = \<lparr>code = toUpperCase h (or_empty (cca2 d)), name = or_empty (name_common d)\<rparr>)
       \<and> files (saveCountriesJson v (simple h data)) COUNTRIES_JSON =
           Some (JSON_stringify (simple h data))
       \<and> read_countries_json (JSON_stringify (simple h data)) = Some (simple h data)
       \<and> (json (parseArgs args) \<longrightarrow>
             fst (main h args w) = Inr () \<and>
             files (snd (main h args w)) COUNTRIES_JSON = Some (JSON_stringify (simple h data)))"
proof -
  have ret: "fst (fetchCountries h w) = Inr (simple h data)"
    using fetchCountries_resolved [OF assms(2-4)] by simp
  have sorted: "sorted_wrt (\<lambda>a b. localeCompare h (name a) (name b) \<le> 0) (simple h data)"
    using assms(1) by (rule sorted_simple)
  have nth: "\<forall>i j. i < j \<and> j < length (simple h data) \<longrightarrow>
      localeCompare h (name (simple h data ! i)) (name (simple h data ! j)) \<le> 0"
    using sorted_wrt_nth [OF sorted] by blast
  have shape: "\<forall>r \<in> set (simple h data). \<exists>d \<in> set data.
      r = \<lparr>code = toUpperCase h (or_empty (cca2 d)), name = or_empty (name_common d)\<rparr>"
    by (auto simp: set_simple reshape_def)
  have saved: "files (saveCountriesJson v (simple h data)) COUNTRIES_JSON =
      Some (JSON_stringify (simple h data))"
    by (simp add: saveCountriesJson_world)
  have run: "json (parseArgs args) \<longrightarrow>
      fst (main h args w) = Inr () \<and>
      files (snd (main h args w)) COUNTRIES_JSON = Some (JSON_stringify (simple h data))"
    using main_saves_list [OF assms(2-4)] by blast
  from ret sorted nth shape saved run read_countries_json_stringify [of "simple h data"]
  show ?thesis by blast
qed

theorem saved_list_is_simplified_and_sorted_witness:
  "consistent (localeCompare sample_host)
   \<and> fst (fetchCountries sample_host empty_world) =
       Inr [\<lparr>code = ''FR'', name = ''France''\<rparr>, \<lparr>code = ''US'', name = ''United States''\<rparr>]
   \<and> localeCompare sample_host ''France'' ''United States'' \<le> 0
   \<and> json (parseArgs [])
   \<and> fst (main sample_host [] empty_world) = Inr ()
   \<and> files (snd (main sample_host [] empty_world)) COUNTRIES_JSON =
       Some (JSON_stringify
         [\<lparr>code = ''FR'', name = ''France''\<rparr>, \<lparr>code = ''US'', name = ''United States''\<rparr>])
   \<and> read_countries_json (JSON_stringify
         [\<lparr>code = ''FR'', name = ''France''\<rparr>, \<lparr>code = ''US'', name = ''United States''\<rparr>]) =
       Some [\<lparr>code = ''FR'', name = ''France''\<rparr>, \<lparr>code = ''US'', name = ''United States''\<rparr>]"
proof -
  have js: "json (parseArgs [])"
    by code_simp
  have le: "localeCompare sample_host ''France'' ''United States'' \<le> 0"
    by code_simp
  note inst = saved_list_is_simplified_and_sorted
    [OF consistent_sample sample_fetch_list, where args = "[]"]
  from inst js le consistent_sample simple_sample show ?thesis
    by simp
qed

end
